theory Spec2Isabelle
  imports Main "HOL-Library.Word"
begin

unbundle bit_operations_syntax

chapter \<open>The model\<close>

section \<open>Common types\<close>

type_synonym byte = "8 word"

text \<open>A Go byte slice that may be \<open>nil\<close>: \<open>None\<close> is the nil slice, \<open>Some []\<close> an
  empty non-nil one.\<close>

type_synonym shard = "byte list option"

text \<open>\<open>len(s)\<close> of a possibly nil slice.\<close>

fun slen :: "shard \<Rightarrow> nat" where
  "slen None = 0"
| "slen (Some bs) = length bs"

text \<open>\<open>append(result, s...)\<close> appends nothing for a nil slice.\<close>

fun sbytes :: "shard \<Rightarrow> byte list" where
  "sbytes None = []"
| "sbytes (Some bs) = bs"

text \<open>Go's integer division truncates towards zero.\<close>

definition go_div :: "int \<Rightarrow> int \<Rightarrow> int" where
  "go_div a b = sgn a * sgn b * (\<bar>a\<bar> div \<bar>b\<bar>)"

text \<open>\<open>copy(dst, src)\<close> overwrites the first \<open>min (len dst) (len src)\<close> elements of \<open>dst\<close>.\<close>

definition copy :: "'a list \<Rightarrow> 'a list \<Rightarrow> 'a list" where
  "copy dst src = take (length dst) src @ drop (length src) dst"

text \<open>A slice expression \<open>b[lo:hi]\<close> with integer bounds. It panics when a bound is out
  of range; the capacity of \<open>b\<close> is taken to be its length, the least it can be, so a
  slice that is in range here is in range in Go.\<close>

definition slice :: "'a list \<Rightarrow> int \<Rightarrow> int \<Rightarrow> 'a list option" where
  "slice b lo hi =
     (if 0 \<le> lo \<and> lo \<le> hi \<and> hi \<le> int (length b)
      then Some (take (nat hi - nat lo) (drop (nat lo) b)) else None)"

text \<open>The verb \<open>%d\<close> of \<open>fmt\<close>: decimal digits, with a minus sign for a negative number.\<close>

definition digit_char :: "nat \<Rightarrow> char" where
  "digit_char d = ''0123456789'' ! d"

function show_nat :: "nat \<Rightarrow> string" where
  "show_nat n = (if n < 10 then [digit_char n] else show_nat (n div 10) @ [digit_char (n mod 10)])"
  by pat_completeness auto
termination
  by (relation "measure id") auto

declare show_nat.simps [simp del]

definition show_int :: "int \<Rightarrow> string" where
  "show_int i = (if i < 0 then CHR ''-'' # show_nat (nat (- i)) else show_nat (nat i))"

section \<open>Package fec: the Reed-Solomon block codec\<close>

text \<open>The codec of \<open>github.com/klauspost/reedsolomon\<close> is a dependency, not code of this
  repository. It is a parameter of the model: \<open>rs_Encode\<close> stands for \<open>Encoder.Encode\<close>
  and \<open>rs_Reconstruct\<close> for \<open>Encoder.Reconstruct\<close>. Both mutate the slice they are given
  and return an error value; here they return the library's error text or the new
  contents of the slice.\<close>

record rs_encoder =
  rs_Encode :: "shard list \<Rightarrow> string + shard list"
  rs_Reconstruct :: "shard list \<Rightarrow> string + shard list"

datatype fec_error =
  ErrIncomplete
| ErrUnrecoverable
| ErrMsg string

record FEC =
  dataShards :: int
  parityShards :: int
  shardSize :: int
  encoder :: rs_encoder

text \<open>\<open>NewFEC\<close>; \<open>rsNew\<close> stands for \<open>reedsolomon.New\<close>.\<close>

definition NewFEC :: "(int \<Rightarrow> int \<Rightarrow> string + rs_encoder) \<Rightarrow> int \<Rightarrow> int \<Rightarrow> int \<Rightarrow> fec_error + FEC" where
  "NewFEC rsNew d p s =
     (if d \<le> 0 \<or> p \<le> 0 then Inl (ErrMsg ''dataShards and parityShards must be positive'')
      else if s \<le> 0 then Inl (ErrMsg ''shardSize must be positive'')
      else (case rsNew d p of
              Inl e \<Rightarrow> Inl (ErrMsg e)
            | Inr enc \<Rightarrow> Inr \<lparr>dataShards = d, parityShards = p, shardSize = s, encoder = enc\<rparr>))"

text \<open>The body of the first loop of \<open>Encode\<close>: data shard \<open>i\<close> is a zeroed slice of
  \<open>sz\<close> bytes that receives \<open>data[start:end]\<close> when \<open>start\<close> lies inside the data.\<close>

definition data_shard :: "byte list \<Rightarrow> nat \<Rightarrow> nat \<Rightarrow> byte list" where
  "data_shard data sz i =
     (let start = i * sz;
          end0 = start + sz;
          end1 = (if end0 > length data then length data else end0)
      in if start < length data
         then copy (replicate sz 0) (take (end1 - start) (drop start data))
         else replicate sz 0)"

definition Encode :: "FEC \<Rightarrow> byte list \<Rightarrow> fec_error + shard list" where
  "Encode f data =
     (if length data = 0 then Inl (ErrMsg ''empty data'')
      else
        let totalShards = dataShards f;
            sz0 = go_div (int (length data) + totalShards - 1) totalShards;
            sz = (if shardSize f > 0 \<and> sz0 < shardSize f then shardSize f else sz0);
            dshards = map (data_shard data (nat sz)) [0..<nat (dataShards f)];
            pshards = replicate (nat (parityShards f)) (replicate (nat sz) 0);
            shards = map Some (dshards @ pshards)
        in (case rs_Encode (encoder f) shards of
              Inl e \<Rightarrow> Inl (ErrMsg e)
            | Inr shards' \<Rightarrow> Inr shards'))"

text \<open>A name for the slice that \<open>Encode\<close> hands to the codec when the payload fits
  the configured shard size: the data shards followed by zeroed parity shards, all of
  \<open>shardSize\<close> bytes.\<close>

definition block :: "FEC \<Rightarrow> byte list \<Rightarrow> shard list" where
  "block f data =
     map Some (map (data_shard data (nat (shardSize f))) [0..<nat (dataShards f)]
       @ replicate (nat (parityShards f)) (replicate (nat (shardSize f)) 0))"

text \<open>The loop of \<open>Decode\<close> that takes the size of the first present, non-nil, non-empty
  shard; 0 when there is none.\<close>

fun first_shardSize :: "shard list \<Rightarrow> bool list \<Rightarrow> nat" where
  "first_shardSize (s # ss) (p # ps) =
     (if p \<and> s \<noteq> None \<and> slen s > 0 then slen s else first_shardSize ss ps)"
| "first_shardSize _ _ = 0"

text \<open>The consistency loop: no present, non-nil shard has another size.\<close>

fun sizes_consistent :: "nat \<Rightarrow> shard list \<Rightarrow> bool list \<Rightarrow> bool" where
  "sizes_consistent sz (s # ss) (p # ps) =
     (if p \<and> s \<noteq> None \<and> slen s \<noteq> sz then False else sizes_consistent sz ss ps)"
| "sizes_consistent sz _ _ = True"

text \<open>The loop that sets every shard not marked present to nil.\<close>

fun mark_missing :: "shard list \<Rightarrow> bool list \<Rightarrow> shard list" where
  "mark_missing (s # ss) (p # ps) = (if \<not> p then None else s) # mark_missing ss ps"
| "mark_missing ss [] = ss"
| "mark_missing [] ps = []"

definition presentCount :: "bool list \<Rightarrow> nat" where
  "presentCount shardPresent = length (filter (\<lambda>present. present) shardPresent)"

definition Decode :: "FEC \<Rightarrow> shard list \<Rightarrow> bool list \<Rightarrow> fec_error + byte list" where
  "Decode f shards shardPresent =
     (if int (length shards) \<noteq> dataShards f + parityShards f
        then Inl (ErrMsg ''incorrect number of shards'')
      else if length shardPresent \<noteq> length shards
        then Inl (ErrMsg ''shardPresent length mismatch'')
      else if int (presentCount shardPresent) < dataShards f then Inl ErrIncomplete
      else
        let sz = first_shardSize shards shardPresent in
        if sz = 0 then Inl (ErrMsg ''no valid shards found to determine shard size'')
        else if \<not> sizes_consistent sz shards shardPresent
          then Inl (ErrMsg ''inconsistent shard size'')
        else (case rs_Reconstruct (encoder f) (mark_missing shards shardPresent) of
                Inl e \<Rightarrow>
                  if int (presentCount shardPresent) = dataShards f + parityShards f
                  then Inl ErrUnrecoverable else Inl ErrIncomplete
              | Inr shards' \<Rightarrow> Inr (concat (map sbytes (take (nat (dataShards f)) shards')))))"

subsection \<open>The library's codec for one data shard\<close>

text \<open>An instance of the parameter, to run the codec on concrete inputs. With a single
  data shard the coding matrix of the library is a column of ones, so every parity
  shard is a copy of the data shard and any one surviving shard restores all of them.
  The checks are the library's: the number of shards, then that some shard has data,
  then that all shards with data have one size.\<close>

definition copy_Encode :: "nat \<Rightarrow> shard list \<Rightarrow> string + shard list" where
  "copy_Encode n shards =
     (if length shards \<noteq> n then Inl ''too few shards given''
      else if list_all (\<lambda>s. slen s = 0) shards then Inl ''no shard data''
      else if \<not> list_all (\<lambda>s. slen s = slen (hd shards)) shards
        then Inl ''shard sizes do not match''
      else Inr (replicate n (hd shards)))"

definition copy_Reconstruct :: "nat \<Rightarrow> shard list \<Rightarrow> string + shard list" where
  "copy_Reconstruct n shards =
     (if length shards \<noteq> n then Inl ''too few shards given''
      else (case find (\<lambda>s. slen s \<noteq> 0) shards of
              None \<Rightarrow> Inl ''no shard data''
            | Some s0 \<Rightarrow>
                if \<not> list_all (\<lambda>s. slen s = 0 \<or> slen s = slen s0) shards
                then Inl ''shard sizes do not match''
                else Inr (map (\<lambda>s. if slen s = 0 then s0 else s) shards)))"

definition copy_encoder :: "nat \<Rightarrow> rs_encoder" where
  "copy_encoder n = \<lparr>rs_Encode = copy_Encode n, rs_Reconstruct = copy_Reconstruct n\<rparr>"

definition copy_New :: "int \<Rightarrow> int \<Rightarrow> string + rs_encoder" where
  "copy_New d p =
     (if d \<noteq> 1 \<or> p \<le> 0 then Inl ''cannot create Encoder with these shard counts''
      else Inr (copy_encoder (nat (d + p))))"

text \<open>One data shard, two parity shards, shards of four bytes.\<close>

definition fec_1_2_4 :: FEC where
  "fec_1_2_4 = \<lparr>dataShards = 1, parityShards = 2, shardSize = 4, encoder = copy_encoder 3\<rparr>"

subsection \<open>The library's codec for more than 256 shards\<close>

text \<open>Beyond 256 shards the library builds a codec over a field of 65536 elements,
  which accepts only shards whose size is a multiple of 64 bytes. Only its checks are
  written out: the number of shards, that some shard has data, that all shards have one
  size, and that this size is a multiple of 64. The arithmetic of the codec is not
  modelled, and this instance is meant for blocks that the checks reject: on a block
  that passes them its \<open>Encode\<close> leaves the parity shards as they are, and its
  \<open>Reconstruct\<close> is not provided.\<close>

definition gf16_Encode :: "nat \<Rightarrow> shard list \<Rightarrow> string + shard list" where
  "gf16_Encode n shards =
     (if length shards \<noteq> n then Inl ''too few shards given''
      else if list_all (\<lambda>s. slen s = 0) shards then Inl ''no shard data''
      else if \<not> list_all (\<lambda>s. slen s = slen (hd shards)) shards
        then Inl ''shard sizes do not match''
      else if slen (hd shards) mod 64 \<noteq> 0 then Inl ''invalid shard size''
      else Inr shards)"

definition gf16_encoder :: "nat \<Rightarrow> rs_encoder" where
  "gf16_encoder n = \<lparr>rs_Encode = gf16_Encode n, rs_Reconstruct = (\<lambda>shards. Inl ''not provided'')\<rparr>"

text \<open>200 data shards, 57 parity shards, shards of four bytes.\<close>

definition fec_200_57_4 :: FEC where
  "fec_200_57_4 = \<lparr>dataShards = 200, parityShards = 57, shardSize = 4, encoder = gf16_encoder 257\<rparr>"

subsection \<open>The contract of the codec\<close>

text \<open>What the library documents for its two operations, for \<open>d\<close> data and \<open>p\<close> parity
  shards. \<open>Encode\<close> takes shards of one non-zero size, keeps the data shards and overwrites
  the parity shards with shards of that size. \<open>Reconstruct\<close> takes a code word produced
  by \<open>Encode\<close> in which shards have been replaced by nil, and restores the whole
  code word when at least \<open>d\<close> shards are left.\<close>

definition uniform :: "nat \<Rightarrow> byte list list \<Rightarrow> bool" where
  "uniform s xs \<longleftrightarrow> (\<forall>x\<in>set xs. length x = s)"

definition rs_encode_ok :: "nat \<Rightarrow> nat \<Rightarrow> rs_encoder \<Rightarrow> bool" where
  "rs_encode_ok d p enc \<longleftrightarrow>
     (\<forall>ds ps0 s. length ds = d \<and> length ps0 = p \<and> 0 < s \<and> uniform s (ds @ ps0) \<longrightarrow>
        (\<exists>ps. length ps = p \<and> uniform s ps \<and>
           rs_Encode enc (map Some (ds @ ps0)) = Inr (map Some (ds @ ps))))"

definition rs_reconstruct_ok :: "nat \<Rightarrow> nat \<Rightarrow> rs_encoder \<Rightarrow> bool" where
  "rs_reconstruct_ok d p enc \<longleftrightarrow>
     (\<forall>ds ps0 s cw recv.
        length ds = d \<and> length ps0 = p \<and> 0 < s \<and> uniform s (ds @ ps0) \<and>
        rs_Encode enc (map Some (ds @ ps0)) = Inr (map Some cw) \<and>
        length recv = d + p \<and>
        (\<forall>i<d + p. recv ! i = None \<or> recv ! i = Some (cw ! i)) \<and>
        d \<le> length (filter (\<lambda>x. x \<noteq> None) recv)
      \<longrightarrow> rs_Reconstruct enc recv = Inr (map Some cw))"

text \<open>\<open>Encode\<close> writes into the shards it is given: when it succeeds, the slice holds as
  many shards as before, each of the length it had.\<close>

definition rs_encode_shape :: "rs_encoder \<Rightarrow> bool" where
  "rs_encode_shape enc \<longleftrightarrow>
     (\<forall>shards shards'. rs_Encode enc shards = Inr shards' \<longrightarrow> map slen shards' = map slen shards)"

text \<open>The fields as \<open>NewFEC\<close> leaves them.\<close>

definition FEC_ok :: "FEC \<Rightarrow> bool" where
  "FEC_ok f \<longleftrightarrow> 0 < dataShards f \<and> 0 < parityShards f \<and> 0 < shardSize f"

section \<open>Package rawsocket: IPv4 and TCP headers on a raw socket\<close>

definition IPPROTO_TCP :: byte where
  "IPPROTO_TCP = 6"

definition IP_DF :: "16 word" where
  "IP_DF = 0x4000"

definition TCPHeaderSize :: nat where
  "TCPHeaderSize = 20"

definition IPHeaderSize :: nat where
  "IPHeaderSize = 20"

subsection \<open>Library functions the package calls\<close>

text \<open>\<open>binary.BigEndian.PutUint16(b[i:i+2], v)\<close> and \<open>PutUint32(b[i:i+4], v)\<close>, and the
  readers \<open>Uint16\<close> and \<open>Uint32\<close> on a slice that is long enough.\<close>

definition PutUint16 :: "byte list \<Rightarrow> nat \<Rightarrow> 16 word \<Rightarrow> byte list" where
  "PutUint16 b i v = b[i := ucast (drop_bit 8 v), i + 1 := ucast v]"

definition PutUint32 :: "byte list \<Rightarrow> nat \<Rightarrow> 32 word \<Rightarrow> byte list" where
  "PutUint32 b i v =
     b[i := ucast (drop_bit 24 v), i + 1 := ucast (drop_bit 16 v),
       i + 2 := ucast (drop_bit 8 v), i + 3 := ucast v]"

definition Uint16 :: "byte list \<Rightarrow> 16 word" where
  "Uint16 b = push_bit 8 (ucast (b ! 0)) OR ucast (b ! 1)"

definition Uint32 :: "byte list \<Rightarrow> 32 word" where
  "Uint32 b = push_bit 24 (ucast (b ! 0)) OR push_bit 16 (ucast (b ! 1))
               OR push_bit 8 (ucast (b ! 2)) OR ucast (b ! 3)"

text \<open>\<open>net.IP\<close> is a byte slice. \<open>To4\<close> returns the four bytes of an IPv4 address, given
  in four bytes or as an IPv4-mapped address of sixteen, and nil for anything else.
  \<open>net.IPv4\<close> builds the sixteen-byte form.\<close>

definition v4InV6Prefix :: "byte list" where
  "v4InV6Prefix = [0, 0, 0, 0, 0, 0, 0, 0, 0, 0, 0xff, 0xff]"

definition To4 :: "byte list \<Rightarrow> shard" where
  "To4 ip =
     (if length ip = 4 then Some ip
      else if length ip = 16 \<and> take 12 ip = v4InV6Prefix then Some (drop 12 ip)
      else None)"

definition IPv4 :: "byte \<Rightarrow> byte \<Rightarrow> byte \<Rightarrow> byte \<Rightarrow> byte list" where
  "IPv4 a b c d = v4InV6Prefix @ [a, b, c, d]"

text \<open>\<open>copy(b[lo:hi], src)\<close> for a range inside \<open>b\<close>.\<close>

definition copy_range :: "byte list \<Rightarrow> nat \<Rightarrow> nat \<Rightarrow> byte list \<Rightarrow> byte list" where
  "copy_range b lo hi src = take lo b @ copy (take (hi - lo) (drop lo b)) src @ drop hi b"

subsection \<open>The Internet checksum\<close>

text \<open>The first loop of \<open>CalculateChecksum\<close>: \<open>i\<close> steps by two while \<open>i < len(data) - 1\<close>,
  adding the big-endian 16-bit word at \<open>i\<close> to the 32-bit sum, which wraps.\<close>

function sum_words :: "byte list \<Rightarrow> nat \<Rightarrow> 32 word \<Rightarrow> 32 word" where
  "sum_words data i s =
     (if int i < int (length data) - 1
      then sum_words data (i + 2) (s + ucast (Uint16 (take 2 (drop i data))))
      else s)"
  by pat_completeness auto
termination
  by (relation "measure (\<lambda>(data, i, s). length data - i)") auto

declare sum_words.simps [simp del]

text \<open>One round of the folding loop takes the low half plus the high half. It lowers
  the sum whenever the high half is not zero, so the loop ends.\<close>

lemma low_half_unat: "unat ((s :: 32 word) AND 0xFFFF) = unat s mod 65536"
proof -
  have m: "(0xFFFF :: 32 word) = mask 16" by (simp add: mask_eq_exp_minus_1)
  have "s AND mask 16 = take_bit 16 s" by (rule take_bit_eq_mask [symmetric])
  then have "unat (s AND mask 16) = take_bit 16 (unat s)" by (simp only: unsigned_take_bit_eq)
  then have "unat (s AND mask 16) = unat s mod 65536" by (simp add: take_bit_eq_mod)
  then show ?thesis by (simp only: m)
qed

lemma high_half_unat: "unat (drop_bit 16 (s :: 32 word)) = unat s div 65536"
proof -
  have "unat (drop_bit 16 s) = drop_bit 16 (unat s)" by (rule unat_drop_bit_eq)
  then show ?thesis by (simp add: drop_bit_eq_div)
qed

lemma fold_step_unat:
  "unat (((s :: 32 word) AND 0xFFFF) + drop_bit 16 s) = unat s mod 65536 + unat s div 65536"
proof -
  have "unat s < 2 ^ 32" using unsigned_less [of s] by simp
  then have "unat s div 65536 < 65536" by simp
  moreover have "unat s mod 65536 < 65536" by simp
  ultimately have "unat (s AND 0xFFFF) + unat (drop_bit 16 s) < 2 ^ LENGTH(32)"
    by (simp only: low_half_unat high_half_unat) simp
  then have "unat ((s AND 0xFFFF) + drop_bit 16 s) = unat (s AND 0xFFFF) + unat (drop_bit 16 s)"
    by (simp only: unat_add_lem)
  then show ?thesis by (simp only: low_half_unat high_half_unat)
qed

lemma carry_less_aux: "0 < q \<Longrightarrow> r + q < 65536 * q + (r::nat)"
  by simp

lemma fold_less_nat: "0 < n div 65536 \<Longrightarrow> n mod 65536 + n div 65536 < (n::nat)"
proof -
  assume "0 < n div 65536"
  then have "n mod 65536 + n div 65536 < 65536 * (n div 65536) + n mod 65536"
    by (rule carry_less_aux)
  also have "\<dots> = n" by (rule mult_div_mod_eq)
  finally show ?thesis .
qed

lemma fold_step_less:
  assumes "drop_bit 16 (s :: 32 word) \<noteq> 0"
  shows "unat ((s AND 0xFFFF) + drop_bit 16 s) < unat s"
proof -
  have "unat (drop_bit 16 s) \<noteq> 0" using assms unat_eq_0 [of "drop_bit 16 s"] by blast
  then have "0 < unat s div 65536" unfolding high_half_unat by (rule neq0_conv [THEN iffD1])
  then have "unat s mod 65536 + unat s div 65536 < unat s" by (rule fold_less_nat)
  then show ?thesis by (simp only: fold_step_unat)
qed

function fold_carry :: "32 word \<Rightarrow> 32 word" where
  "fold_carry s =
     (if drop_bit 16 s \<noteq> 0 then fold_carry ((s AND 0xFFFF) + drop_bit 16 s) else s)"
  by pat_completeness auto
termination
proof (relation "measure unat")
  show "wf (measure unat)" by simp
next
  fix s :: "32 word"
  assume "drop_bit 16 s \<noteq> 0"
  then have "unat ((s AND 0xFFFF) + drop_bit 16 s) < unat s" by (rule fold_step_less)
  then show "((s AND 0xFFFF) + drop_bit 16 s, s) \<in> measure unat"
    by (simp only: in_measure)
qed

declare fold_carry.simps [simp del]

definition CalculateChecksum :: "byte list \<Rightarrow> 16 word" where
  "CalculateChecksum data =
     (let s = sum_words data 0 0;
          s = (if length data mod 2 = 1
               then s + push_bit 8 (ucast (data ! (length data - 1))) else s);
          s = fold_carry s
      in NOT (ucast s))"

subsection \<open>Building headers\<close>

text \<open>\<open>payloadLen\<close> is a Go \<open>int\<close>; \<open>uint16(totalLen)\<close> keeps its low sixteen bits.\<close>

definition BuildIPHeader :: "byte list \<Rightarrow> byte list \<Rightarrow> byte \<Rightarrow> int \<Rightarrow> byte list" where
  "BuildIPHeader srcIP dstIP protocol payloadLen =
     (let header = replicate IPHeaderSize 0;
          header = header[0 := 0x45];
          header = header[1 := 0];
          totalLen = int IPHeaderSize + payloadLen;
          header = PutUint16 header 2 (word_of_int totalLen);
          header = PutUint16 header 4 12345;
          header = PutUint16 header 6 IP_DF;
          header = header[8 := 64];
          header = header[9 := protocol];
          header = header[10 := 0];
          header = header[11 := 0];
          header = copy_range header 12 16 (sbytes (To4 srcIP));
          header = copy_range header 16 20 (sbytes (To4 dstIP));
          checksum = CalculateChecksum header
      in PutUint16 header 10 checksum)"

definition BuildTCPHeader ::
  "16 word \<Rightarrow> 16 word \<Rightarrow> 32 word \<Rightarrow> 32 word \<Rightarrow> byte \<Rightarrow> 16 word \<Rightarrow> byte list \<Rightarrow> byte list" where
  "BuildTCPHeader srcPort dstPort seq ack flags window options =
     (let optLen = length options;
          options = (if optLen mod 4 \<noteq> 0
                     then options @ replicate (4 - optLen mod 4) 0 else options);
          optLen = length options;
          headerLen = TCPHeaderSize + optLen;
          header = replicate headerLen 0;
          header = PutUint16 header 0 srcPort;
          header = PutUint16 header 2 dstPort;
          header = PutUint32 header 4 seq;
          header = PutUint32 header 8 ack;
          dataOffset = (word_of_nat (headerLen div 4) :: byte);
          header = header[12 := push_bit 4 dataOffset];
          header = header[13 := flags];
          header = PutUint16 header 14 window;
          header = header[16 := 0];
          header = header[17 := 0];
          header = header[18 := 0];
          header = header[19 := 0]
      in if optLen > 0 then copy_range header TCPHeaderSize headerLen options else header)"

definition CalculateTCPChecksum :: "byte list \<Rightarrow> byte list \<Rightarrow> byte list \<Rightarrow> byte list \<Rightarrow> 16 word" where
  "CalculateTCPChecksum srcIP dstIP tcpHeader payload =
     (let pseudoHeader = replicate 12 0;
          pseudoHeader = copy_range pseudoHeader 0 4 (sbytes (To4 srcIP));
          pseudoHeader = copy_range pseudoHeader 4 8 (sbytes (To4 dstIP));
          pseudoHeader = pseudoHeader[8 := 0];
          pseudoHeader = pseudoHeader[9 := IPPROTO_TCP];
          tcpLen = length tcpHeader + length payload;
          pseudoHeader = PutUint16 pseudoHeader 10 (word_of_nat tcpLen);
          data = replicate (length pseudoHeader + length tcpHeader + length payload) 0;
          data = copy_range data 0 (length data) pseudoHeader;
          data = copy_range data (length pseudoHeader) (length data) tcpHeader;
          data = copy_range data (length pseudoHeader + length tcpHeader) (length data) payload
      in CalculateChecksum data)"

text \<open>The packet \<open>SendPacket\<close> hands to \<open>syscall.Sendto\<close>.\<close>

definition SendPacket_packet ::
  "byte list \<Rightarrow> 16 word \<Rightarrow> byte list \<Rightarrow> 16 word \<Rightarrow> 32 word \<Rightarrow> 32 word \<Rightarrow> byte
     \<Rightarrow> byte list \<Rightarrow> byte list \<Rightarrow> byte list" where
  "SendPacket_packet srcIP srcPort dstIP dstPort seq ack flags tcpOptions payload =
     (let tcpHeader = BuildTCPHeader srcPort dstPort seq ack flags 65535 tcpOptions;
          checksum = CalculateTCPChecksum srcIP dstIP tcpHeader payload;
          tcpHeader = PutUint16 tcpHeader 16 checksum;
          ipHeader = BuildIPHeader srcIP dstIP IPPROTO_TCP
                       (int (length tcpHeader) + int (length payload));
          packet = replicate (length ipHeader + length tcpHeader + length payload) 0;
          packet = copy_range packet 0 (length packet) ipHeader;
          packet = copy_range packet (length ipHeader) (length packet) tcpHeader;
          packet = copy_range packet (length ipHeader + length tcpHeader) (length packet) payload
      in packet)"

text \<open>\<open>SendPacket\<close>: \<open>sendto packet addr\<close> stands for \<open>syscall.Sendto\<close> on the socket and
  returns the error text when the kernel rejects the packet.\<close>

definition SendPacket ::
  "(byte list \<Rightarrow> byte list \<Rightarrow> string option) \<Rightarrow> byte list \<Rightarrow> 16 word \<Rightarrow> byte list \<Rightarrow> 16 word
     \<Rightarrow> 32 word \<Rightarrow> 32 word \<Rightarrow> byte \<Rightarrow> byte list \<Rightarrow> byte list \<Rightarrow> string option" where
  "SendPacket sendto srcIP srcPort dstIP dstPort seq ack flags tcpOptions payload =
     (let packet = SendPacket_packet srcIP srcPort dstIP dstPort seq ack flags tcpOptions payload;
          addr = copy (replicate 4 0) (sbytes (To4 dstIP))
      in (case sendto packet addr of
            Some e \<Rightarrow> Some (''failed to send packet: '' @ e)
          | None \<Rightarrow> None))"

subsection \<open>Receiving\<close>

record tcp_packet =
  srcIP :: "byte list"
  srcPort :: "16 word"
  dstIP :: "byte list"
  dstPort :: "16 word"
  seq :: "32 word"
  ack :: "32 word"
  flags :: byte
  payload :: shard

text \<open>What a call of \<open>RecvPacket\<close> ends in: a run-time panic on a slice out of range, a
  returned error, or the parsed packet.\<close>

datatype recv_result =
  Panic
| RecvError string
| Received tcp_packet

text \<open>\<open>RecvPacket\<close> after \<open>syscall.Recvfrom\<close> has returned: \<open>buf\<close> is the buffer as the
  call left it, \<open>r\<close> the error text or the byte count \<open>n\<close> of the call.\<close>

definition RecvPacket :: "byte list \<Rightarrow> string + int \<Rightarrow> recv_result" where
  "RecvPacket buf r =
     (case r of
        Inl e \<Rightarrow> RecvError (''failed to receive packet: '' @ e)
      | Inr n \<Rightarrow>
          if n < int (IPHeaderSize + TCPHeaderSize)
          then RecvError (''packet too small: '' @ show_int n @ '' bytes'')
          else
            (case slice buf 0 (int IPHeaderSize) of
               None \<Rightarrow> Panic
             | Some ipHeader \<Rightarrow>
                 let ihl = ((ipHeader ! 0) AND 0x0F) * 4 in
                 if int (unat ihl) > n then RecvError ''invalid IP header length''
                 else
                   let protocol = ipHeader ! 9 in
                   if protocol \<noteq> IPPROTO_TCP then RecvError ''not a TCP packet''
                   else
                     let src = IPv4 (ipHeader ! 12) (ipHeader ! 13) (ipHeader ! 14) (ipHeader ! 15);
                         dst = IPv4 (ipHeader ! 16) (ipHeader ! 17) (ipHeader ! 18) (ipHeader ! 19);
                         tcpStart = int (unat ihl)
                     in
                     if n < tcpStart + int TCPHeaderSize
                     then RecvError ''packet too small for TCP header''
                     else
                       (case slice buf tcpStart (tcpStart + int TCPHeaderSize) of
                          None \<Rightarrow> Panic
                        | Some tcpHeader \<Rightarrow>
                            let sport = Uint16 (take 2 tcpHeader);
                                dport = Uint16 (take 2 (drop 2 tcpHeader));
                                sq = Uint32 (take 4 (drop 4 tcpHeader));
                                ak = Uint32 (take 4 (drop 8 tcpHeader));
                                dataOffset = drop_bit 4 (tcpHeader ! 12) * 4;
                                fl = tcpHeader ! 13;
                                payloadStart = tcpStart + int (unat dataOffset)
                            in
                            if payloadStart < n
                            then
                              (case slice buf payloadStart n of
                                 None \<Rightarrow> Panic
                               | Some bytes \<Rightarrow>
                                   Received \<lparr>srcIP = src, srcPort = sport, dstIP = dst,
                                     dstPort = dport, seq = sq, ack = ak, flags = fl,
                                     payload = Some (copy (replicate (nat (n - payloadStart)) 0) bytes)\<rparr>)
                            else
                              Received \<lparr>srcIP = src, srcPort = sport, dstIP = dst,
                                dstPort = dport, seq = sq, ack = ak, flags = fl,
                                payload = None\<rparr>)))"

text \<open>The two lengths \<open>RecvPacket\<close> derives from a datagram: four times the low nibble
  of its first byte (the IHL), and four times the high nibble of byte 12 of the TCP
  header that starts there (the data offset).\<close>

definition ihl_of :: "byte list \<Rightarrow> nat" where
  "ihl_of buf = unat (((buf ! 0) AND 0x0F) * 4)"

definition data_offset_of :: "byte list \<Rightarrow> nat" where
  "data_offset_of buf = unat (drop_bit 4 (buf ! (ihl_of buf + 12)) * 4)"

text \<open>Datagrams for examples, each with IHL 5 and protocol TCP, from 10.0.0.1 port 1234 to
  10.0.0.2 port 80. In \<open>dgram_offset_15\<close> the TCP data offset is 15, a header of 60
  bytes, while only 20 bytes follow the IP header. In \<open>dgram_offset_0\<close> the data offset is
  0 and four bytes follow the 20 bytes of the TCP header. \<open>dgram_data\<close> has data offset 6,
  four bytes of options and the payload 1, 2, 3.\<close>

definition ip_header_example :: "byte list" where
  "ip_header_example = [0x45, 0, 0, 40, 0x30, 0x39, 0x40, 0, 64, 6, 0xF6, 0x94, 10, 0, 0, 1, 10, 0, 0, 2]"

definition dgram_offset_15 :: "byte list" where
  "dgram_offset_15 = ip_header_example
     @ [0x04, 0xD2, 0, 80, 0, 0, 0, 1, 0, 0, 0, 2, 0xF0, 0x18, 0xFF, 0xFF, 0, 0, 0, 0]"

definition dgram_offset_0 :: "byte list" where
  "dgram_offset_0 = ip_header_example
     @ [0x04, 0xD2, 0, 80, 0, 0, 0, 1, 0, 0, 0, 2, 0x00, 0x18, 0xFF, 0xFF, 0, 0, 0, 0]
     @ [9, 9, 9, 9]"

definition dgram_data :: "byte list" where
  "dgram_data = ip_header_example
     @ [0x04, 0xD2, 0, 80, 0, 0, 0, 1, 0, 0, 0, 2, 0x60, 0x18, 0xFF, 0xFF, 0, 0, 0, 0]
     @ [2, 4, 5, 0] @ [1, 2, 3]"

subsection \<open>The Internet checksum as a receiver verifies it\<close>








subsection \<open>Auxiliary definitions\<close>

text \<open>Names for parts of the functions above, used in the proofs: the IP header as
  \<open>BuildIPHeader\<close> has filled it when it computes the checksum, the length of TCP options
  after padding, the pseudo header of \<open>CalculateTCPChecksum\<close>, the four address bytes that
  \<open>copy\<close> takes from \<open>To4\<close>, the step of \<open>CalculateChecksum\<close> for an odd trailing byte, and
  the value to which end-around carries reduce a sum of 16-bit words.\<close>

definition ip_fields :: "byte list \<Rightarrow> byte list \<Rightarrow> byte \<Rightarrow> int \<Rightarrow> byte list" where
  "ip_fields src dst protocol payloadLen =
     (let header = replicate IPHeaderSize 0;
          header = header[0 := 0x45];
          header = header[1 := 0];
          totalLen = int IPHeaderSize + payloadLen;
          header = PutUint16 header 2 (word_of_int totalLen);
          header = PutUint16 header 4 12345;
          header = PutUint16 header 6 IP_DF;
          header = header[8 := 64];
          header = header[9 := protocol];
          header = header[10 := 0];
          header = header[11 := 0];
          header = copy_range header 12 16 (sbytes (To4 src));
          header = copy_range header 16 20 (sbytes (To4 dst))
      in header)"


definition pseudo_header :: "byte list \<Rightarrow> byte list \<Rightarrow> nat \<Rightarrow> byte list" where
  "pseudo_header src dst tcpLen =
     (let pseudoHeader = replicate 12 0;
          pseudoHeader = copy_range pseudoHeader 0 4 (sbytes (To4 src));
          pseudoHeader = copy_range pseudoHeader 4 8 (sbytes (To4 dst));
          pseudoHeader = pseudoHeader[8 := 0];
          pseudoHeader = pseudoHeader[9 := IPPROTO_TCP]
      in PutUint16 pseudoHeader 10 (word_of_nat tcpLen))"

definition addr4 :: "byte list \<Rightarrow> byte list" where
  "addr4 ip = copy (replicate 4 0) (sbytes (To4 ip))"



section \<open>Package tunnel: path MTU discovery\<close>

record MTUDiscovery =
  remoteAddr :: string
  currentMTU :: int
  minMTU :: int
  maxMTU :: int

definition NewMTUDiscovery :: "string \<Rightarrow> int \<Rightarrow> MTUDiscovery" where
  "NewMTUDiscovery addr initialMTU =
     \<lparr>remoteAddr = addr, currentMTU = initialMTU, minMTU = 576, maxMTU = 1500\<rparr>"

text \<open>What \<open>DiscoverOptimalMTU\<close> asks of the network. \<open>splitHostPort\<close> and \<open>lookupIP\<close>
  return an error text or their result. \<open>testMTU k ip mtu\<close> is the answer of the \<open>k\<close>-th
  call of the method \<open>testMTU\<close> in one run: the method dials the peer, so two calls with
  the same size need not agree.\<close>

record network =
  splitHostPort :: "string \<Rightarrow> string + string"
  lookupIP :: "string \<Rightarrow> string + string list"
  testMTU :: "nat \<Rightarrow> string \<Rightarrow> int \<Rightarrow> bool"

definition maxAttempts :: nat where
  "maxAttempts = 10"

text \<open>The probe loop. Its state is \<open>low\<close>, \<open>high\<close>, \<open>optimal\<close> and \<open>attempts\<close>; \<open>tested\<close>
  records the sizes handed to the probe, in order, and is returned with the result.\<close>

function probe_loop ::
  "(nat \<Rightarrow> int \<Rightarrow> bool) \<Rightarrow> int \<Rightarrow> int \<Rightarrow> int \<Rightarrow> nat \<Rightarrow> int list \<Rightarrow> int \<times> nat \<times> int list" where
  "probe_loop probe low high optimal attempts tested =
     (if low \<le> high \<and> attempts < maxAttempts then
        (let attempts' = attempts + 1;
             mtu = go_div (low + high) 2
         in if probe attempts' mtu
            then probe_loop probe (mtu + 1) high mtu attempts' (tested @ [mtu])
            else probe_loop probe low (mtu - 1) optimal attempts' (tested @ [mtu]))
      else (optimal, attempts, tested))"
  by pat_completeness auto
termination
  by (relation "measure (\<lambda>(probe, low, high, optimal, attempts, tested). maxAttempts - attempts)")
    auto

declare probe_loop.simps [simp del]

definition DiscoverOptimalMTU :: "network \<Rightarrow> MTUDiscovery \<Rightarrow> int \<times> string option \<times> int list" where
  "DiscoverOptimalMTU net m =
     (case splitHostPort net (remoteAddr m) of
        Inl e \<Rightarrow> (currentMTU m, Some (''invalid remote address: '' @ e), [])
      | Inr host \<Rightarrow>
          (case lookupIP net host of
             Inl e \<Rightarrow> (currentMTU m, Some (''failed to resolve host: '' @ e), [])
           | Inr ips \<Rightarrow>
               if length ips = 0 then (currentMTU m, Some ''no IP addresses found for host'', [])
               else
                 let targetIP = hd ips;
                     (optimal, attempts, tested) =
                        probe_loop (\<lambda>k. testMTU net k targetIP) (minMTU m) (maxMTU m) (minMTU m) 0 [];
                     safeMTU = optimal - 20 - 20 - 1 - 28;
                     safeMTU = (if safeMTU < 500 then 500 else safeMTU);
                     safeMTU = (if safeMTU > 1371 then 1371 else safeMTU)
                 in (safeMTU, None, tested)))"

text \<open>A network for examples: the address resolves, and a size reaches the peer exactly
  when it is at most \<open>pmtu\<close>.\<close>

definition path_network :: "int \<Rightarrow> network" where
  "path_network pmtu =
     \<lparr>splitHostPort = (\<lambda>addr. Inr (takeWhile (\<lambda>c. c \<noteq> CHR '':'') addr)),
      lookupIP = (\<lambda>host. Inr [host]),
      testMTU = (\<lambda>k ip mtu. mtu \<le> pmtu)\<rparr>"

section \<open>Package iptables: the rules that drop the kernel's RST segments\<close>

subsection \<open>Library functions the package calls\<close>

text \<open>\<open>strings.Split(s, sep)\<close> for a separator of one character, and \<open>strings.Join\<close>.\<close>

fun split_on :: "char \<Rightarrow> string \<Rightarrow> string list" where
  "split_on c [] = [[]]"
| "split_on c (x # xs) =
     (if x = c then [] # split_on c xs
      else (let r = split_on c xs in (x # hd r) # tl r))"

fun join :: "string \<Rightarrow> string list \<Rightarrow> string" where
  "join sep [] = []"
| "join sep [x] = x"
| "join sep (x # y # rest) = x @ sep @ join sep (y # rest)"

text \<open>Running \<open>iptables\<close>. The program and the kernel's rule table are outside the
  repository: \<open>ipt args k\<close> stands for one run of \<open>iptables\<close> with the arguments \<open>args\<close> on
  a kernel in state \<open>k\<close>, and returns the combined output, the error of the run if it
  failed, and the new state. A host is the kernel together with the record of the runs
  made so far, each with its arguments, output and error.\<close>

type_synonym run = "string list \<times> string \<times> string option"

type_synonym 'k iptables = "string list \<Rightarrow> 'k \<Rightarrow> (string \<times> string option) \<times> 'k"

record 'k host =
  kernel :: 'k
  runs :: "run list"

text \<open>\<open>exec.Command("iptables", args...)\<close> followed by \<open>CombinedOutput\<close> or \<open>Run\<close>.\<close>

definition exec_iptables :: "'k iptables \<Rightarrow> string list \<Rightarrow> 'k host \<Rightarrow> (string \<times> string option) \<times> 'k host" where
  "exec_iptables ipt args h =
     (let ((output, err), k) = ipt args (kernel h)
      in ((output, err), \<lparr>kernel = k, runs = runs h @ [(args, output, err)]\<rparr>))"

subsection \<open>The manager\<close>

text \<open>The mutex of the manager is not modelled: every method holds it from entry to
  return, so each call is one step.\<close>

record IPTablesManager =
  rules :: "string list"

definition NewIPTablesManager :: IPTablesManager where
  "NewIPTablesManager = \<lparr>rules = []\<rparr>"

definition ruleExists :: "'k iptables \<Rightarrow> string \<Rightarrow> 'k host \<Rightarrow> bool \<times> 'k host" where
  "ruleExists ipt rule h =
     (let args = split_on CHR '' '' rule;
          args = ''-C'' # args;
          ((output, err), h) = exec_iptables ipt args h
      in (err = None, h))"

text \<open>The rule of \<open>AddRuleForPort\<close>; the source formats the same text for both roles.\<close>

definition port_rule :: "16 word \<Rightarrow> bool \<Rightarrow> string" where
  "port_rule port isServer =
     (if isServer
      then ''OUTPUT -p tcp --tcp-flags RST RST --sport '' @ show_nat (unat port) @ '' -j DROP''
      else ''OUTPUT -p tcp --tcp-flags RST RST --sport '' @ show_nat (unat port) @ '' -j DROP'')"

definition AddRuleForPort ::
  "'k iptables \<Rightarrow> IPTablesManager \<Rightarrow> 16 word \<Rightarrow> bool \<Rightarrow> 'k host \<Rightarrow> string option \<times> IPTablesManager \<times> 'k host" where
  "AddRuleForPort ipt m port isServer h =
     (let rule = port_rule port isServer;
          (exists, h) = ruleExists ipt rule h
      in if exists then (None, m, h)
         else
           let args = split_on CHR '' '' rule;
               args = ''-A'' # args;
               ((output, err), h) = exec_iptables ipt args h
           in (case err of
                 Some e \<Rightarrow> (Some (''failed to add iptables rule: '' @ e @ '', output: '' @ output), m, h)
               | None \<Rightarrow> (None, m\<lparr>rules := rules m @ [rule]\<rparr>, h)))"

definition connection_rules :: "string \<Rightarrow> 16 word \<Rightarrow> string \<Rightarrow> 16 word \<Rightarrow> bool \<Rightarrow> string list" where
  "connection_rules localIP localPort remoteIP remotePort isServer =
     (if isServer
      then [''OUTPUT -p tcp --tcp-flags RST RST -s '' @ localIP @ '' --sport '' @ show_nat (unat localPort)
              @ '' -d '' @ remoteIP @ '' --dport '' @ show_nat (unat remotePort) @ '' -j DROP'']
      else [''OUTPUT -p tcp --tcp-flags RST RST -s '' @ localIP @ '' --sport '' @ show_nat (unat localPort)
              @ '' -d '' @ remoteIP @ '' --dport '' @ show_nat (unat remotePort) @ '' -j DROP''])"

text \<open>The loop of \<open>AddRuleForConnection\<close> over its rules: a rule that exists is skipped,
  and the first rule that cannot be added ends the call with an error.\<close>

fun connection_loop ::
  "'k iptables \<Rightarrow> IPTablesManager \<Rightarrow> string list \<Rightarrow> 'k host \<Rightarrow> string option \<times> IPTablesManager \<times> 'k host" where
  "connection_loop ipt m [] h = (None, m, h)"
| "connection_loop ipt m (rule # rest) h =
     (let (exists, h) = ruleExists ipt rule h
      in if exists then connection_loop ipt m rest h
         else
           let args = split_on CHR '' '' rule;
               args = ''-A'' # args;
               ((output, err), h) = exec_iptables ipt args h
           in (case err of
                 Some e \<Rightarrow> (Some (''failed to add iptables rule: '' @ e @ '', output: '' @ output), m, h)
               | None \<Rightarrow> connection_loop ipt (m\<lparr>rules := rules m @ [rule]\<rparr>) rest h))"

definition AddRuleForConnection ::
  "'k iptables \<Rightarrow> IPTablesManager \<Rightarrow> string \<Rightarrow> 16 word \<Rightarrow> string \<Rightarrow> 16 word \<Rightarrow> bool \<Rightarrow> 'k host
     \<Rightarrow> string option \<times> IPTablesManager \<times> 'k host" where
  "AddRuleForConnection ipt m localIP localPort remoteIP remotePort isServer h =
     connection_loop ipt m (connection_rules localIP localPort remoteIP remotePort isServer) h"

text \<open>The loop of \<open>RemoveAllRules\<close>: every rule is tried; a failure appends a message to
  \<open>errors\<close> and the loop continues.\<close>

fun remove_loop :: "'k iptables \<Rightarrow> string list \<Rightarrow> string list \<Rightarrow> 'k host \<Rightarrow> string list \<times> 'k host" where
  "remove_loop ipt [] errors h = (errors, h)"
| "remove_loop ipt (rule # rest) errors h =
     (let args = split_on CHR '' '' rule;
          args = ''-D'' # args;
          ((output, err), h) = exec_iptables ipt args h
      in (case err of
            Some e \<Rightarrow>
              remove_loop ipt rest
                (errors @ [''failed to remove rule '' @ [CHR 0x27] @ rule @ [CHR 0x27] @ '': '' @ e
                             @ '', output: '' @ output]) h
          | None \<Rightarrow> remove_loop ipt rest errors h))"

definition RemoveAllRules ::
  "'k iptables \<Rightarrow> IPTablesManager \<Rightarrow> 'k host \<Rightarrow> string option \<times> IPTablesManager \<times> 'k host" where
  "RemoveAllRules ipt m h =
     (let (errors, h) = remove_loop ipt (rules m) [] h;
          m = m\<lparr>rules := []\<rparr>
      in if length errors > 0
         then (Some (''errors removing rules: '' @ join ''; '' errors), m, h)
         else (None, m, h))"

definition GetRules :: "IPTablesManager \<Rightarrow> string list" where
  "GetRules m = rules m"

subsection \<open>Sequences of installs\<close>

datatype install =
  ForPort "16 word" bool
| ForConnection string "16 word" string "16 word" bool

fun do_install ::
  "'k iptables \<Rightarrow> IPTablesManager \<Rightarrow> install \<Rightarrow> 'k host \<Rightarrow> string option \<times> IPTablesManager \<times> 'k host" where
  "do_install ipt m (ForPort port isServer) h = AddRuleForPort ipt m port isServer h"
| "do_install ipt m (ForConnection lip lport rip rport isServer) h =
     AddRuleForConnection ipt m lip lport rip rport isServer h"

text \<open>The calls of a list, in order, each on the manager and host the one before left;
  the result lists the error of every call.\<close>

fun do_installs ::
  "'k iptables \<Rightarrow> IPTablesManager \<Rightarrow> install list \<Rightarrow> 'k host \<Rightarrow> string option list \<times> IPTablesManager \<times> 'k host" where
  "do_installs ipt m [] h = ([], m, h)"
| "do_installs ipt m (c # cs) h =
     (let (e, m, h) = do_install ipt m c h;
          (es, m, h) = do_installs ipt m cs h
      in (e # es, m, h))"

subsection \<open>A kernel for examples\<close>

text \<open>A table of rules, each the argument list after the action. \<open>-A\<close> appends and
  succeeds, \<open>-C\<close> succeeds when the rule is in the table, \<open>-D\<close> deletes the first copy and
  fails when there is none, unless the rule is listed in \<open>stuck\<close>, whose deletion always
  fails; anything else fails.\<close>

definition table_iptables :: "string list list \<Rightarrow> (string list list) iptables" where
  "table_iptables stuck args k =
     (case args of
        [] \<Rightarrow> ((''iptables: no command specified'', Some ''exit status 2''), k)
      | action # rule \<Rightarrow>
          if action = ''-A'' then (('''', None), k @ [rule])
          else if action = ''-C'' then
            (if rule \<in> set k then (('''', None), k)
             else ((''iptables: Bad rule (does a matching rule exist in that chain?).'',
                    Some ''exit status 1''), k))
          else if action = ''-D'' then
            (if rule \<in> set k \<and> rule \<notin> set stuck then (('''', None), remove1 rule k)
             else ((''iptables: Bad rule (does a matching rule exist in that chain?).'',
                    Some ''exit status 1''), k))
          else ((''iptables: unknown option'', Some ''exit status 2''), k))"

definition fresh_host :: "(string list list) host" where
  "fresh_host = \<lparr>kernel = [], runs = []\<rparr>"

subsection \<open>The failures among the removals\<close>

text \<open>Not from the code: for rules paired with the runs that tried to remove them, the
  message of every run that failed, in order, and the single error made of them.\<close>

fun removal_failures :: "(string \<times> run) list \<Rightarrow> string list" where
  "removal_failures [] = []"
| "removal_failures ((rule, (args, output, err)) # rest) =
     (case err of
        Some e \<Rightarrow>
          (''failed to remove rule '' @ [CHR 0x27] @ rule @ [CHR 0x27] @ '': '' @ e
             @ '', output: '' @ output) # removal_failures rest
      | None \<Rightarrow> removal_failures rest)"

definition aggregate_error :: "string list \<Rightarrow> string option" where
  "aggregate_error msgs =
     (if msgs = [] then None else Some (''errors removing rules: '' @ join ''; '' msgs))"

text \<open>Not from the code either: what removing a list of rules asks of \<open>iptables\<close>. One
  run of \<open>iptables -D\<close> for each rule, in order, each on the kernel the run before left,
  whether that run failed or not; the result is the runs and the last kernel.
  \<open>successful_adds\<close> picks from a record of runs the argument lists of the runs of
  \<open>iptables -A\<close> that succeeded: the rules that were installed.\<close>

fun delete_runs :: "'k iptables \<Rightarrow> string list \<Rightarrow> 'k \<Rightarrow> run list \<times> 'k" where
  "delete_runs ipt [] k = ([], k)"
| "delete_runs ipt (rule # rest) k =
     (let args = ''-D'' # split_on CHR '' '' rule;
          ((output, err), k) = ipt args k;
          (rs, k) = delete_runs ipt rest k
      in ((args, output, err) # rs, k))"

definition successful_adds :: "run list \<Rightarrow> string list list" where
  "successful_adds rs =
     map fst (filter (\<lambda>(args, output, err). take 1 args = [''-A''] \<and> err = None) rs)"

text \<open>Two installs for examples, and a kernel that refuses to delete the first rule.\<close>

definition example_installs :: "install list" where
  "example_installs = [ForPort 8080 True, ForConnection ''10.0.0.1'' 8080 ''10.0.0.2'' 40000 True]"

definition stuck_iptables :: "(string list list) iptables" where
  "stuck_iptables = table_iptables [split_on CHR '' '' (port_rule 8080 True)]"

definition example_installed :: "string option list \<times> IPTablesManager \<times> (string list list) host" where
  "example_installed = do_installs stuck_iptables NewIPTablesManager example_installs fresh_host"

definition example_removed :: "string option \<times> IPTablesManager \<times> (string list list) host" where
  "example_removed =
     RemoveAllRules stuck_iptables (fst (snd example_installed)) (snd (snd example_installed))"

definition port_installed :: "string option \<times> IPTablesManager \<times> (string list list) host" where
  "port_installed = AddRuleForPort (table_iptables []) NewIPTablesManager 8080 True fresh_host"

chapter \<open>Properties\<close>

section \<open>Integer division\<close>

text \<open>On a non-negative dividend and a positive divisor Go's quotient is the floor.\<close>

lemma go_div_nonneg: "0 \<le> a \<Longrightarrow> 0 < b \<Longrightarrow> go_div a b = a div b"
  by (cases "a = 0") (simp_all add: go_div_def)

section \<open>Copying\<close>

lemma length_copy [simp]: "length (copy dst src) = length dst"
  by (simp add: copy_def)

lemma copy_fresh: "length src = k \<Longrightarrow> copy (replicate k x) src = src"
  by (simp add: copy_def)

section \<open>The block codec: proofs\<close>

subsection \<open>Shard arithmetic\<close>

lemma NewFEC_ok: "NewFEC rsNew d p s = Inr f \<Longrightarrow> FEC_ok f \<and> dataShards f = d \<and> parityShards f = p \<and> shardSize f = s"
  by (auto simp: NewFEC_def FEC_ok_def split: if_splits sum.splits)

lemma length_data_shard: "length (data_shard data sz i) = sz"
  by (simp add: data_shard_def Let_def length_copy)

lemma data_shard_chunk:
  "data_shard data sz i = take sz (drop (i * sz) (data @ replicate ((i + 1) * sz - length data) 0))"
proof (cases "i * sz < length data")
  case True
  show ?thesis
  proof (cases "i * sz + sz > length data")
    case True
    with \<open>i * sz < length data\<close> show ?thesis
      by (simp add: data_shard_def Let_def copy_def min_def)
  next
    case False
    then have "sz \<le> length data - i * sz" by arith
    with False True show ?thesis
      by (simp add: data_shard_def Let_def copy_def)
  qed
next
  case False
  then show ?thesis
    by (simp add: data_shard_def Let_def)
qed

lemma concat_chunks: "concat (map (\<lambda>i. take sz (drop (i * sz) xs)) [0..<d]) = take (d * sz) xs"
proof (induction d)
  case 0
  show ?case by simp
next
  case (Suc d)
  have "take (d * sz) xs @ take sz (drop (d * sz) xs) = take (d * sz + sz) xs"
    by (simp add: take_add)
  with Suc show ?case by (simp add: add.commute)
qed

lemma take_drop_append_le:
  "n + m \<le> length xs \<Longrightarrow> take m (drop n (xs @ ys)) = take m (drop n xs)"
  by simp

lemma data_shard_padded:
  assumes "length data \<le> d * sz" "i < d"
  shows "data_shard data sz i = take sz (drop (i * sz) (data @ replicate (d * sz - length data) 0))"
proof -
  have "Suc i \<le> d" using assms(2) by simp
  then have "Suc i * sz \<le> d * sz" by (rule mult_le_mono1)
  then have le: "(i + 1) * sz \<le> d * sz" by simp
  define k where "k = (i + 1) * sz - length data"
  define m where "m = d * sz - length data"
  define A where "A = data @ replicate k (0::byte)"
  have "k \<le> m" using le by (simp add: k_def m_def)
  then have "replicate m (0::byte) = replicate k 0 @ replicate (m - k) 0"
    by (simp add: replicate_add [symmetric])
  then have split: "data @ replicate m (0::byte) = A @ replicate (m - k) 0"
    by (simp add: A_def)
  have "i * sz + sz \<le> length A" by (simp add: A_def k_def)
  then have "take sz (drop (i * sz) (A @ replicate (m - k) 0)) = take sz (drop (i * sz) A)"
    by (rule take_drop_append_le)
  with split have "take sz (drop (i * sz) (data @ replicate m 0)) = take sz (drop (i * sz) A)"
    by (simp only:)
  also have "\<dots> = data_shard data sz i"
    unfolding A_def k_def by (rule data_shard_chunk [symmetric])
  finally show ?thesis unfolding m_def by (rule sym)
qed

lemma concat_data_shards:
  assumes "length data \<le> d * sz"
  shows "concat (map (data_shard data sz) [0..<d]) = data @ replicate (d * sz - length data) 0"
proof -
  define xs where "xs = data @ replicate (d * sz - length data) (0::byte)"
  have "map (data_shard data sz) [0..<d] = map (\<lambda>i. take sz (drop (i * sz) xs)) [0..<d]"
    unfolding xs_def using assms by (intro map_cong [OF refl]) (simp only: data_shard_padded set_upt atLeastLessThan_iff)
  then have "concat (map (data_shard data sz) [0..<d]) = take (d * sz) xs"
    by (simp only: concat_chunks)
  also have "\<dots> = xs" using assms by (simp add: xs_def)
  finally show ?thesis unfolding xs_def .
qed

lemma ceil_div_le:
  assumes "0 < d" "n \<le> d * s"
  shows "(n + d - 1) div d \<le> (s::nat)"
proof -
  have "n + d - 1 < d * s + d" using assms by arith
  then have "n + d - 1 < d * Suc s" by simp
  then have "(n + d - 1) div d < Suc s"
    using assms(1) by (simp add: less_mult_imp_div_less mult.commute)
  then show ?thesis by simp
qed

lemma Encode_shardSize:
  assumes "FEC_ok f" "data \<noteq> []" "int (length data) \<le> dataShards f * shardSize f"
  shows "(let sz0 = go_div (int (length data) + dataShards f - 1) (dataShards f)
          in if shardSize f > 0 \<and> sz0 < shardSize f then shardSize f else sz0) = shardSize f"
proof -
  define d where "d = nat (dataShards f)"
  define s where "s = nat (shardSize f)"
  have D: "dataShards f = int d" and S: "shardSize f = int s" and d0: "0 < d" and s0: "0 < s"
    using assms(1) by (simp_all add: FEC_ok_def d_def s_def)
  have len: "length data \<le> d * s"
    using assms(3) unfolding D S by (metis of_nat_le_iff of_nat_mult)
  have n0: "0 < length data" using assms(2) by simp
  have "int (length data) + int d - 1 = int (length data + d - 1)" using d0 by simp
  then have "go_div (int (length data) + int d - 1) (int d) = int ((length data + d - 1) div d)"
    using d0 by (simp add: go_div_nonneg zdiv_int)
  moreover have "(length data + d - 1) div d \<le> s" using d0 len by (rule ceil_div_le)
  ultimately show ?thesis unfolding D S Let_def by auto
qed

lemma uniform_append: "uniform s (xs @ ys) \<longleftrightarrow> uniform s xs \<and> uniform s ys"
  by (auto simp: uniform_def)

lemma uniform_data_shards: "uniform sz (map (data_shard data sz) is)"
  by (simp add: uniform_def length_data_shard)

lemma uniform_zeros: "uniform sz (replicate n (replicate sz 0))"
  by (simp add: uniform_def)

lemma Encode_ok:
  assumes ok: "FEC_ok f"
    and c: "rs_encode_ok (nat (dataShards f)) (nat (parityShards f)) (encoder f)"
    and ne: "data \<noteq> []"
    and le: "int (length data) \<le> dataShards f * shardSize f"
  shows "\<exists>ps. length ps = nat (parityShards f) \<and> uniform (nat (shardSize f)) ps \<and>
           Encode f data = Inr (map Some (map (data_shard data (nat (shardSize f))) [0..<nat (dataShards f)] @ ps)) \<and>
           rs_Encode (encoder f)
             (map Some (map (data_shard data (nat (shardSize f))) [0..<nat (dataShards f)]
                @ replicate (nat (parityShards f)) (replicate (nat (shardSize f)) 0)))
           = Inr (map Some (map (data_shard data (nat (shardSize f))) [0..<nat (dataShards f)] @ ps))"
proof -
  define d where "d = nat (dataShards f)"
  define p where "p = nat (parityShards f)"
  define s where "s = nat (shardSize f)"
  define ds where "ds = map (data_shard data s) [0..<d]"
  define ps0 where "ps0 = replicate p (replicate s (0::byte))"
  have s0: "0 < s" using ok by (simp add: FEC_ok_def s_def)
  have "length ds = d \<and> length ps0 = p \<and> 0 < s \<and> uniform s (ds @ ps0)"
    using s0 by (simp add: ds_def ps0_def uniform_append uniform_data_shards uniform_zeros)
  with c obtain ps where ps: "length ps = p" "uniform s ps"
      "rs_Encode (encoder f) (map Some (ds @ ps0)) = Inr (map Some (ds @ ps))"
    unfolding rs_encode_ok_def d_def [symmetric] p_def [symmetric] by blast
  have sz: "(let sz0 = go_div (int (length data) + dataShards f - 1) (dataShards f)
          in if shardSize f > 0 \<and> sz0 < shardSize f then shardSize f else sz0) = shardSize f"
    using ok ne le by (rule Encode_shardSize)
  have "Encode f data = Inr (map Some (ds @ ps))"
    using ne ps(3) sz
    by (simp add: Encode_def Let_def ds_def ps0_def d_def p_def s_def del: map_append)
  with ps show ?thesis
    unfolding d_def p_def s_def ds_def ps0_def by blast
qed

lemma first_shardSize_uniform:
  assumes "length recv = length pres"
    and "\<forall>i<length recv. pres ! i \<longrightarrow> slen (recv ! i) = s"
    and "0 < s" and "\<exists>i<length pres. pres ! i"
  shows "first_shardSize recv pres = s"
  using assms
proof (induction recv pres rule: list_induct2)
  case Nil
  then show ?case by simp
next
  case (Cons x xs b bs)
  show ?case
  proof (cases b)
    case True
    with Cons.prems(1) have "slen x = s" by auto
    with True \<open>0 < s\<close> show ?thesis by (cases x) auto
  next
    case False
    from Cons.prems(1) have tl: "\<forall>i<length xs. bs ! i \<longrightarrow> slen (xs ! i) = s" by auto
    from Cons.prems(3) obtain i where i: "i < length (b # bs)" "(b # bs) ! i" by blast
    with False obtain j where "i = Suc j" by (cases i) auto
    with i have "\<exists>i<length bs. bs ! i" by auto
    with Cons.IH tl \<open>0 < s\<close> have "first_shardSize xs bs = s" by blast
    with False show ?thesis by simp
  qed
qed

lemma sizes_consistent_uniform:
  assumes "length recv = length pres"
    and "\<forall>i<length recv. pres ! i \<longrightarrow> slen (recv ! i) = s"
  shows "sizes_consistent s recv pres"
  using assms
proof (induction recv pres rule: list_induct2)
  case Nil
  then show ?case by simp
next
  case (Cons x xs b bs)
  from Cons.prems have hd: "b \<longrightarrow> slen x = s" and tl: "\<forall>i<length xs. bs ! i \<longrightarrow> slen (xs ! i) = s"
    by auto
  with Cons.IH show ?case by simp
qed

lemma length_mark_missing:
  "length recv = length pres \<Longrightarrow> length (mark_missing recv pres) = length recv"
  by (induction recv pres rule: list_induct2) simp_all

lemma nth_mark_missing:
  "length recv = length pres \<Longrightarrow> i < length recv \<Longrightarrow>
   mark_missing recv pres ! i = (if pres ! i then recv ! i else None)"
proof (induction recv pres arbitrary: i rule: list_induct2)
  case Nil
  then show ?case by simp
next
  case (Cons x xs b bs)
  then show ?case by (cases i) simp_all
qed

lemma count_mark_missing:
  assumes "length recv = length pres"
    and "\<forall>i<length recv. pres ! i \<longrightarrow> recv ! i \<noteq> None"
  shows "length (filter (\<lambda>x. x \<noteq> None) (mark_missing recv pres)) = presentCount pres"
  using assms
proof (induction recv pres rule: list_induct2)
  case Nil
  then show ?case by (simp add: presentCount_def)
next
  case (Cons x xs b bs)
  from Cons.prems have hd: "b \<longrightarrow> x \<noteq> None" and tl: "\<forall>i<length xs. bs ! i \<longrightarrow> xs ! i \<noteq> None"
    by auto
  from Cons.IH tl have "length (filter (\<lambda>x. x \<noteq> None) (mark_missing xs bs)) = presentCount bs"
    by simp
  with hd show ?case by (simp add: presentCount_def)
qed

lemma presentCount_lost:
  "presentCount pres + length (filter (\<lambda>present. \<not> present) pres) = length pres"
  unfolding presentCount_def by (rule sum_length_filter_compl)

lemma presentCount_pos: "0 < presentCount pres \<Longrightarrow> \<exists>i<length pres. pres ! i"
proof -
  assume "0 < presentCount pres"
  then have "filter (\<lambda>present. present) pres \<noteq> []" by (auto simp: presentCount_def)
  then obtain b where "b \<in> set pres" "b" by (auto simp: filter_empty_conv)
  then show ?thesis by (auto simp: in_set_conv_nth)
qed

lemma Decode_codeword:
  assumes ok: "FEC_ok f"
    and len: "length cw = nat (dataShards f) + nat (parityShards f)"
    and uni: "uniform s cw" and s0: "0 < s"
    and lr: "length recv = length cw" and lp: "length pres = length cw"
    and surv: "\<forall>i<length cw. pres ! i \<longrightarrow> recv ! i = Some (cw ! i)"
    and cnt: "nat (dataShards f) \<le> presentCount pres"
    and rec: "\<forall>r. length r = nat (dataShards f) + nat (parityShards f) \<and>
                (\<forall>i<nat (dataShards f) + nat (parityShards f). r ! i = None \<or> r ! i = Some (cw ! i)) \<and>
                nat (dataShards f) \<le> length (filter (\<lambda>x. x \<noteq> None) r)
              \<longrightarrow> rs_Reconstruct (encoder f) r = Inr (map Some cw)"
  shows "Decode f recv pres = Inr (concat (take (nat (dataShards f)) cw))"
proof -
  define d where "d = nat (dataShards f)"
  define p where "p = nat (parityShards f)"
  have D: "dataShards f = int d" and P: "parityShards f = int p" and d0: "0 < d"
    using ok by (simp_all add: FEC_ok_def d_def p_def)
  have sl: "\<forall>i<length recv. pres ! i \<longrightarrow> slen (recv ! i) = s"
    using surv uni lr by (auto simp: uniform_def)
  have nn: "\<forall>i<length recv. pres ! i \<longrightarrow> recv ! i \<noteq> None"
    using surv lr by auto
  have "0 < presentCount pres" using cnt d0 by (simp add: d_def)
  then have ex: "\<exists>i<length pres. pres ! i" by (rule presentCount_pos)
  have fs: "first_shardSize recv pres = s"
    using lr lp sl s0 ex by (intro first_shardSize_uniform) simp_all
  have sc: "sizes_consistent s recv pres"
    using lr lp sl by (intro sizes_consistent_uniform) simp_all
  let ?m = "mark_missing recv pres"
  have lm: "length ?m = d + p" using lr lp len by (simp add: length_mark_missing d_def p_def)
  have nm: "\<forall>i<d + p. ?m ! i = None \<or> ?m ! i = Some (cw ! i)"
    using lr lp len surv by (simp add: nth_mark_missing d_def p_def)
  have "length (filter (\<lambda>x. x \<noteq> None) ?m) = presentCount pres"
    using lr lp nn by (intro count_mark_missing) simp_all
  then have cm: "d \<le> length (filter (\<lambda>x. x \<noteq> None) ?m)"
    using cnt by (simp only: d_def)
  from rec lm nm cm have R: "rs_Reconstruct (encoder f) ?m = Inr (map Some cw)"
    unfolding d_def p_def by blast
  have "d \<le> presentCount pres" using cnt by (simp only: d_def)
  then have c1: "\<not> int (presentCount pres) < int d" by simp
  have c2: "int (length recv) = int d + int p" "length pres = length recv"
    using lr lp len by (simp_all add: d_def p_def)
  have cc: "concat (map sbytes (take d (map Some cw))) = concat (take d cw)"
    by (simp add: take_map comp_def)
  have nd: "nat (int d) = d" by simp
  show ?thesis
    unfolding Decode_def D P nd Let_def fs
    using c1 c2 sc s0 R cc by (simp add: d_def)
qed

lemma copy_encode_ok: "rs_encode_ok 1 p (copy_encoder (Suc p))"
  unfolding rs_encode_ok_def
proof (intro allI impI)
  fix ds ps0 :: "byte list list" and s :: nat
  assume h: "length ds = 1 \<and> length ps0 = p \<and> 0 < s \<and> uniform s (ds @ ps0)"
  then obtain a where ds: "ds = [a]" by (cases ds) auto
  from h have la: "length a = s" and s0: "0 < s" and u: "\<forall>x\<in>set ps0. length x = s"
    by (auto simp: ds uniform_def)
  have "copy_Encode (Suc p) (map Some (ds @ ps0)) = Inr (replicate (Suc p) (Some a))"
    using h la s0 u by (simp add: copy_Encode_def ds list_all_iff)
  also have "replicate (Suc p) (Some a) = map Some (ds @ replicate p a)"
    by (simp add: ds)
  finally have "rs_Encode (copy_encoder (Suc p)) (map Some (ds @ ps0)) = Inr (map Some (ds @ replicate p a))"
    by (simp add: copy_encoder_def)
  moreover have "length (replicate p a) = p \<and> uniform s (replicate p a)"
    using la by (simp add: uniform_def)
  ultimately show "\<exists>ps. length ps = p \<and> uniform s ps \<and>
      rs_Encode (copy_encoder (Suc p)) (map Some (ds @ ps0)) = Inr (map Some (ds @ ps))"
    by blast
qed

lemma find_first_data:
  assumes "\<forall>x\<in>set recv. x = None \<or> x = Some a" "\<exists>x\<in>set recv. x \<noteq> None" "0 < length a"
  shows "find (\<lambda>s. slen s \<noteq> 0) recv = Some (Some a)"
  using assms
proof (induction recv)
  case Nil
  then show ?case by simp
next
  case (Cons x xs)
  show ?case
  proof (cases "x = None")
    case True
    with Cons show ?thesis by simp
  next
    case False
    with Cons.prems(1) have "x = Some a" by simp
    with Cons.prems(3) show ?thesis by simp
  qed
qed

lemma copy_reconstruct_ok: "rs_reconstruct_ok 1 p (copy_encoder (Suc p))"
  unfolding rs_reconstruct_ok_def
proof (intro allI impI)
  fix ds ps0 cw :: "byte list list" and s :: nat and recv :: "shard list"
  assume h: "length ds = 1 \<and> length ps0 = p \<and> 0 < s \<and> uniform s (ds @ ps0) \<and>
        rs_Encode (copy_encoder (Suc p)) (map Some (ds @ ps0)) = Inr (map Some cw) \<and>
        length recv = 1 + p \<and>
        (\<forall>i<1 + p. recv ! i = None \<or> recv ! i = Some (cw ! i)) \<and>
        1 \<le> length (filter (\<lambda>x. x \<noteq> None) recv)"
  then obtain a where ds: "ds = [a]" by (cases ds) auto
  from h have la: "length a = s" and s0: "0 < s" and u: "\<forall>x\<in>set ps0. length x = s"
    by (auto simp: ds uniform_def)
  have "copy_Encode (Suc p) (map Some (ds @ ps0)) = Inr (replicate (Suc p) (Some a))"
    using h la s0 u by (simp add: copy_Encode_def ds list_all_iff)
  with h have "map Some cw = replicate (Suc p) (Some a)"
    by (simp add: copy_encoder_def)
  then have "map Some cw = map Some (replicate (Suc p) a)" by simp
  then have cw: "cw = replicate (Suc p) a"
    by (simp only: inj_map_eq_map [OF inj_Some])
  have each: "\<forall>x\<in>set recv. x = None \<or> x = Some a"
  proof
    fix x assume "x \<in> set recv"
    then obtain i where i: "i < length recv" "recv ! i = x" by (auto simp: in_set_conv_nth)
    with h have il: "i < 1 + p" by simp
    then have "cw ! i = a" by (simp add: cw del: replicate_Suc)
    moreover from h il have "recv ! i = None \<or> recv ! i = Some (cw ! i)" by blast
    ultimately show "x = None \<or> x = Some a" using i(2) by simp
  qed
  from h have "filter (\<lambda>x. x \<noteq> None) recv \<noteq> []" by auto
  then have some: "\<exists>x\<in>set recv. x \<noteq> None" by (auto simp: filter_empty_conv)
  have f: "find (\<lambda>s. slen s \<noteq> 0) recv = Some (Some a)"
    using each some s0 la by (intro find_first_data) simp_all
  have all: "list_all (\<lambda>s. slen s = 0 \<or> slen s = slen (Some a)) recv"
    using each by (auto simp: list_all_iff)
  have "map (\<lambda>s. if slen s = 0 then Some a else s) recv = replicate (length recv) (Some a)"
    using each la s0 by (intro nth_equalityI) (auto simp: all_set_conv_all_nth)
  with h f all show "rs_Reconstruct (copy_encoder (Suc p)) recv = Inr (map Some cw)"
    by (simp add: copy_encoder_def copy_Reconstruct_def cw)
qed

lemma Encode_example:
  "Encode fec_1_2_4 [1, 2, 3] = Inr [Some [1, 2, 3, 0], Some [1, 2, 3, 0], Some [1, 2, 3, 0]]"
  by (simp add: Encode_def fec_1_2_4_def go_div_def data_shard_def copy_def copy_encoder_def
      copy_Encode_def Let_def eval_nat_numeral)

subsection \<open>Shape of an encoded block\<close>

lemma Encode_block:
  assumes "FEC_ok f" "data \<noteq> []" "int (length data) \<le> dataShards f * shardSize f"
  shows "Encode f data = (case rs_Encode (encoder f) (block f data) of
                            Inl e \<Rightarrow> Inl (ErrMsg e) | Inr shards' \<Rightarrow> Inr shards')"
proof -
  have sz: "(let sz0 = go_div (int (length data) + dataShards f - 1) (dataShards f)
          in if shardSize f > 0 \<and> sz0 < shardSize f then shardSize f else sz0) = shardSize f"
    using assms by (rule Encode_shardSize)
  show ?thesis
    using assms(2) sz by (simp add: Encode_def Let_def block_def del: map_append)
qed

lemma length_block: "FEC_ok f \<Longrightarrow> int (length (block f data)) = dataShards f + parityShards f"
  by (simp add: block_def FEC_ok_def)

lemma slen_block: "x \<in> set (block f data) \<Longrightarrow> slen x = nat (shardSize f)"
  by (auto simp: block_def length_data_shard)

lemma copy_encode_shape: "rs_encode_shape (copy_encoder n)"
  unfolding rs_encode_shape_def
proof (intro allI impI)
  fix shards shards'
  assume "rs_Encode (copy_encoder n) shards = Inr shards'"
  then have l: "length shards = n" and a: "list_all (\<lambda>s. slen s = slen (hd shards)) shards"
    and r: "shards' = replicate n (hd shards)"
    by (auto simp: copy_encoder_def copy_Encode_def split: if_splits)
  show "map slen shards' = map slen shards"
    unfolding r using l a by (auto simp: list_all_iff intro!: nth_equalityI)
qed

lemma gf16_rejects:
  assumes "length B = n" "B \<noteq> []" "\<forall>x\<in>set B. slen x = s" "0 < s" "s mod 64 \<noteq> 0"
  shows "gf16_Encode n B = Inl ''invalid shard size''"
proof -
  from assms(2) have h: "hd B \<in> set B" by (rule hd_in_set)
  with assms(3) have hs: "slen (hd B) = s" by blast
  from h hs assms(4) have "\<not> list_all (\<lambda>s. slen s = 0) B" by (auto simp: list_all_iff)
  moreover from assms(3) hs have "list_all (\<lambda>s. slen s = slen (hd B)) B" by (simp add: list_all_iff)
  ultimately show ?thesis using assms(1,5) hs by (simp add: gf16_Encode_def)
qed

text \<open>Claim C9, as amended. Let the codec leave the number and the lengths of the shards
  as they are when it succeeds, and take a non-empty payload of at most
  \<open>dataShards * shardSize\<close> bytes. Whenever \<open>Encode\<close> returns shards, it returns exactly
  \<open>dataShards + parityShards\<close> of them, none nil, each of \<open>shardSize\<close> bytes. \<open>Encode\<close>
  fails exactly when the codec rejects the block of \<open>dataShards + parityShards\<close> shards of
  \<open>shardSize\<close> bytes, with the error of the codec, so it returns shards with every codec
  that meets the contract of \<open>Encode\<close>.\<close>

theorem Encode_shards_uniform:
  assumes "FEC_ok f"
    and "rs_encode_shape (encoder f)"
    and "data \<noteq> []"
    and "int (length data) \<le> dataShards f * shardSize f"
  shows "(\<forall>shards. Encode f data = Inr shards \<longrightarrow>
            int (length shards) = dataShards f + parityShards f \<and>
            (\<forall>x\<in>set shards. x \<noteq> None \<and> int (slen x) = shardSize f)) \<and>
         (\<forall>e. Encode f data = Inl e \<longleftrightarrow>
            (\<exists>msg. rs_Encode (encoder f) (block f data) = Inl msg \<and> e = ErrMsg msg)) \<and>
         (rs_encode_ok (nat (dataShards f)) (nat (parityShards f)) (encoder f) \<longrightarrow>
            (\<exists>shards. Encode f data = Inr shards))"
proof (intro conjI allI impI)
  note E = Encode_block [OF assms(1,3,4)]
  have pos: "0 < shardSize f" using assms(1) by (simp add: FEC_ok_def)
  {
    fix shards assume s: "Encode f data = Inr shards"
    with E have r: "rs_Encode (encoder f) (block f data) = Inr shards"
      by (auto split: sum.splits)
    with assms(2) have m: "map slen shards = map slen (block f data)"
      unfolding rs_encode_shape_def by blast
    then have "length shards = length (block f data)" by (rule map_eq_imp_length_eq)
    then show "int (length shards) = dataShards f + parityShards f"
      using length_block [OF assms(1)] by simp
    have "\<forall>n\<in>set (map slen shards). n = nat (shardSize f)"
      unfolding m using slen_block by auto
    then have a: "\<forall>x\<in>set shards. slen x = nat (shardSize f)" by simp
    show "\<forall>x\<in>set shards. x \<noteq> None \<and> int (slen x) = shardSize f"
    proof
      fix x assume "x \<in> set shards"
      with a have "slen x = nat (shardSize f)" by blast
      with pos show "x \<noteq> None \<and> int (slen x) = shardSize f" by (cases x) auto
    qed
  }
  show "Encode f data = Inl e \<longleftrightarrow>
        (\<exists>msg. rs_Encode (encoder f) (block f data) = Inl msg \<and> e = ErrMsg msg)" for e
    unfolding E by (auto split: sum.splits)
  assume "rs_encode_ok (nat (dataShards f)) (nat (parityShards f)) (encoder f)"
  from Encode_ok [OF assms(1) this assms(3,4)] show "\<exists>shards. Encode f data = Inr shards"
    by blast
qed

theorem Encode_shards_uniform_witness:
  "\<exists>shards. Encode fec_1_2_4 [1, 2, 3] = Inr shards \<and> int (length shards) = 3 \<and>
     list_all (\<lambda>x. x \<noteq> None \<and> int (slen x) = 4) shards"
proof -
  have "FEC_ok fec_1_2_4" by (simp add: FEC_ok_def fec_1_2_4_def)
  moreover have "rs_encode_shape (encoder fec_1_2_4)"
    using copy_encode_shape [of 3] by (simp add: fec_1_2_4_def)
  moreover have "rs_encode_ok (nat (dataShards fec_1_2_4)) (nat (parityShards fec_1_2_4)) (encoder fec_1_2_4)"
    using copy_encode_ok [of 2] by (simp add: fec_1_2_4_def numeral_3_eq_3 numeral_2_eq_2)
  moreover have "[1, 2, 3] \<noteq> ([] :: byte list)" by simp
  moreover have "int (length [1, 2, 3 :: byte]) \<le> dataShards fec_1_2_4 * shardSize fec_1_2_4"
    by (simp add: fec_1_2_4_def)
  ultimately have "(\<forall>shards. Encode fec_1_2_4 [1, 2, 3] = Inr shards \<longrightarrow>
            int (length shards) = dataShards fec_1_2_4 + parityShards fec_1_2_4 \<and>
            (\<forall>x\<in>set shards. x \<noteq> None \<and> int (slen x) = shardSize fec_1_2_4)) \<and>
         (\<exists>shards. Encode fec_1_2_4 [1, 2, 3] = Inr shards)"
    using Encode_shards_uniform [of fec_1_2_4 "[1, 2, 3]"] by blast
  then show ?thesis
    by (auto simp: fec_1_2_4_def list_all_iff)
qed

text \<open>Claim C9 as stated fails: with 200 data and 57 parity shards of four bytes the
  codec of the library rejects the block, and \<open>Encode\<close> returns its error for a payload
  of three bytes.\<close>

theorem Encode_rejected_beyond_256:
  "FEC_ok fec_200_57_4 \<and> int (length [1, 2, 3 :: byte]) \<le> dataShards fec_200_57_4 * shardSize fec_200_57_4 \<and>
   Encode fec_200_57_4 [1, 2, 3] = Inl (ErrMsg ''invalid shard size'')"
proof -
  define B where "B = block fec_200_57_4 [1, 2, 3]"
  have f: "FEC_ok fec_200_57_4" by (simp add: FEC_ok_def fec_200_57_4_def)
  have l: "int (length [1, 2, 3 :: byte]) \<le> dataShards fec_200_57_4 * shardSize fec_200_57_4"
    by (simp add: fec_200_57_4_def)
  have n: "[1, 2, 3] \<noteq> ([] :: byte list)" by simp
  from length_block [OF f, of "[1, 2, 3]"] have len: "length B = 257"
    by (simp add: fec_200_57_4_def B_def)
  then have ne: "B \<noteq> []" by auto
  have sz: "\<forall>x\<in>set B. slen x = 4"
    using slen_block [of _ fec_200_57_4 "[1, 2, 3]"] by (simp add: fec_200_57_4_def B_def)
  have "gf16_Encode 257 B = Inl ''invalid shard size''"
    using len ne sz by (rule gf16_rejects) simp_all
  then have "rs_Encode (encoder fec_200_57_4) (block fec_200_57_4 [1, 2, 3]) = Inl ''invalid shard size''"
    by (simp add: fec_200_57_4_def gf16_encoder_def B_def)
  with Encode_block [OF f n l] have "Encode fec_200_57_4 [1, 2, 3] = Inl (ErrMsg ''invalid shard size'')"
    by simp
  with f l show ?thesis by blast
qed

subsection \<open>Encoding, loss of at most \<open>parityShards\<close> shards, decoding\<close>

text \<open>Claim C1, as amended. With a codec that meets the contract, let \<open>Encode\<close> turn a
  non-empty payload of at most \<open>dataShards * shardSize\<close> bytes into \<open>shards\<close>, and let
  \<open>recv\<close> agree with \<open>shards\<close> wherever \<open>pres\<close> marks a shard present, at most
  \<open>parityShards\<close> shards being marked lost. Then \<open>Decode\<close> returns the payload followed
  by zero bytes up to \<open>dataShards * shardSize\<close> bytes: the payload itself exactly when
  it fills the block.\<close>

theorem Decode_Encode_padded:
  assumes ok: "FEC_ok f"
    and ce: "rs_encode_ok (nat (dataShards f)) (nat (parityShards f)) (encoder f)"
    and cr: "rs_reconstruct_ok (nat (dataShards f)) (nat (parityShards f)) (encoder f)"
    and ne: "data \<noteq> []"
    and le: "int (length data) \<le> dataShards f * shardSize f"
    and enc: "Encode f data = Inr shards"
    and lr: "length recv = length shards" and lp: "length pres = length shards"
    and surv: "\<forall>i<length shards. pres ! i \<longrightarrow> recv ! i = shards ! i"
    and lost: "int (length (filter (\<lambda>present. \<not> present) pres)) \<le> parityShards f"
  shows "Decode f recv pres =
           Inr (data @ replicate (nat (dataShards f * shardSize f) - length data) 0)"
proof -
  define d where "d = nat (dataShards f)"
  define p where "p = nat (parityShards f)"
  define s where "s = nat (shardSize f)"
  define ds where "ds = map (data_shard data s) [0..<d]"
  define ps0 where "ps0 = replicate p (replicate s (0::byte))"
  have D: "dataShards f = int d" and P: "parityShards f = int p" and S: "shardSize f = int s"
    and s0: "0 < s"
    using ok by (simp_all add: FEC_ok_def d_def p_def s_def)
  from Encode_ok [OF ok ce ne le] obtain ps where ps: "length ps = p" "uniform s ps"
      "Encode f data = Inr (map Some (ds @ ps))"
      "rs_Encode (encoder f) (map Some (ds @ ps0)) = Inr (map Some (ds @ ps))"
    unfolding ds_def ps0_def d_def p_def s_def by blast
  define cw where "cw = ds @ ps"
  have sh: "shards = map Some cw" using enc ps(3) by (simp add: cw_def)
  have lcw: "length cw = d + p" using ps(1) by (simp add: cw_def ds_def)
  have ucw: "uniform s cw" using ps(2) by (simp add: cw_def uniform_append ds_def uniform_data_shards)
  have wf: "length ds = d \<and> length ps0 = p \<and> 0 < s \<and> uniform s (ds @ ps0)"
    using s0 by (simp add: ds_def ps0_def uniform_append uniform_data_shards uniform_zeros)
  have rec: "\<forall>r. length r = d + p \<and>
                (\<forall>i<d + p. r ! i = None \<or> r ! i = Some (cw ! i)) \<and>
                d \<le> length (filter (\<lambda>x. x \<noteq> None) r)
              \<longrightarrow> rs_Reconstruct (encoder f) r = Inr (map Some cw)"
  proof (intro allI impI)
    fix r
    assume r: "length r = d + p \<and>
                (\<forall>i<d + p. r ! i = None \<or> r ! i = Some (cw ! i)) \<and>
                d \<le> length (filter (\<lambda>x. x \<noteq> None) r)"
    from cr have "length ds = d \<and> length ps0 = p \<and> 0 < s \<and> uniform s (ds @ ps0) \<and>
        rs_Encode (encoder f) (map Some (ds @ ps0)) = Inr (map Some cw) \<and>
        length r = d + p \<and>
        (\<forall>i<d + p. r ! i = None \<or> r ! i = Some (cw ! i)) \<and>
        d \<le> length (filter (\<lambda>x. x \<noteq> None) r)
      \<longrightarrow> rs_Reconstruct (encoder f) r = Inr (map Some cw)"
      unfolding rs_reconstruct_ok_def d_def [symmetric] p_def [symmetric] by blast
    with wf ps(4) r show "rs_Reconstruct (encoder f) r = Inr (map Some cw)"
      unfolding cw_def by blast
  qed
  have "presentCount pres + length (filter (\<lambda>present. \<not> present) pres) = d + p"
    using lp sh lcw by (simp add: presentCount_lost)
  moreover have "length (filter (\<lambda>present. \<not> present) pres) \<le> p"
    using lost unfolding P by simp
  ultimately have cnt: "d \<le> presentCount pres" by arith
  have surv': "\<forall>i<length cw. pres ! i \<longrightarrow> recv ! i = Some (cw ! i)"
    using surv by (simp add: sh)
  have "Decode f recv pres = Inr (concat (take (nat (dataShards f)) cw))"
    using ok _ ucw s0 _ _ surv' _ _
  proof (rule Decode_codeword)
    show "length cw = nat (dataShards f) + nat (parityShards f)" using lcw by (simp add: d_def p_def)
    show "length recv = length cw" using lr sh by simp
    show "length pres = length cw" using lp sh by simp
    show "nat (dataShards f) \<le> presentCount pres" using cnt by (simp add: d_def)
    show "\<forall>r. length r = nat (dataShards f) + nat (parityShards f) \<and>
                (\<forall>i<nat (dataShards f) + nat (parityShards f). r ! i = None \<or> r ! i = Some (cw ! i)) \<and>
                nat (dataShards f) \<le> length (filter (\<lambda>x. x \<noteq> None) r)
              \<longrightarrow> rs_Reconstruct (encoder f) r = Inr (map Some cw)"
      using rec by (simp only: d_def p_def)
  qed
  also have "take (nat (dataShards f)) cw = ds" by (simp add: cw_def ds_def d_def)
  also have "concat ds = data @ replicate (d * s - length data) 0"
  proof -
    have "length data \<le> d * s"
      using le unfolding D S by (metis of_nat_le_iff of_nat_mult)
    then show ?thesis unfolding ds_def by (rule concat_data_shards)
  qed
  also have "d * s = nat (dataShards f * shardSize f)"
    unfolding D S by (simp add: nat_mult_distrib)
  finally show ?thesis .
qed

theorem Decode_Encode_padded_witness:
  "Decode fec_1_2_4 [None, None, Some [1, 2, 3, 0]] [False, False, True] = Inr [1, 2, 3, 0]"
proof -
  have "FEC_ok fec_1_2_4" by (simp add: FEC_ok_def fec_1_2_4_def)
  moreover have "rs_encode_ok (nat (dataShards fec_1_2_4)) (nat (parityShards fec_1_2_4)) (encoder fec_1_2_4)"
    using copy_encode_ok [of 2] by (simp add: fec_1_2_4_def numeral_3_eq_3 numeral_2_eq_2)
  moreover have "rs_reconstruct_ok (nat (dataShards fec_1_2_4)) (nat (parityShards fec_1_2_4)) (encoder fec_1_2_4)"
    using copy_reconstruct_ok [of 2] by (simp add: fec_1_2_4_def numeral_3_eq_3 numeral_2_eq_2)
  moreover have "[1, 2, 3] \<noteq> ([] :: byte list)" by simp
  moreover have "int (length [1, 2, 3 :: byte]) \<le> dataShards fec_1_2_4 * shardSize fec_1_2_4"
    by (simp add: fec_1_2_4_def)
  moreover note Encode_example
  moreover have "length [None, None, Some [1, 2, 3, 0 :: byte]]
      = length [Some [1, 2, 3, 0], Some [1, 2, 3, 0], Some [1, 2, 3, 0 :: byte]]" by simp
  moreover have "length [False, False, True]
      = length [Some [1, 2, 3, 0], Some [1, 2, 3, 0], Some [1, 2, 3, 0 :: byte]]" by simp
  moreover have "\<forall>i<length [Some [1, 2, 3, 0], Some [1, 2, 3, 0], Some [1, 2, 3, 0 :: byte]].
      [False, False, True] ! i \<longrightarrow>
        [None, None, Some [1, 2, 3, 0 :: byte]] ! i = [Some [1, 2, 3, 0], Some [1, 2, 3, 0], Some [1, 2, 3, 0]] ! i"
    by (simp add: nth_Cons less_Suc_eq split: nat.splits)
  moreover have "int (length (filter (\<lambda>present. \<not> present) [False, False, True])) \<le> parityShards fec_1_2_4"
    by (simp add: fec_1_2_4_def)
  ultimately have "Decode fec_1_2_4 [None, None, Some [1, 2, 3, 0]] [False, False, True] =
      Inr ([1, 2, 3] @ replicate (nat (dataShards fec_1_2_4 * shardSize fec_1_2_4) - length [1, 2, 3 :: byte]) 0)"
    by (rule Decode_Encode_padded)
  then show ?thesis by (simp add: fec_1_2_4_def)
qed

text \<open>Claim C1 as stated fails: a payload of three bytes in a block of four comes back
  with its padding, here with the first shard lost.\<close>

theorem Decode_Encode_not_identity:
  "Encode fec_1_2_4 [1, 2, 3] = Inr [Some [1, 2, 3, 0], Some [1, 2, 3, 0], Some [1, 2, 3, 0]] \<and>
   Decode fec_1_2_4 [None, Some [1, 2, 3, 0], Some [1, 2, 3, 0]] [False, True, True] = Inr [1, 2, 3, 0] \<and>
   Decode fec_1_2_4 [None, Some [1, 2, 3, 0], Some [1, 2, 3, 0]] [False, True, True] \<noteq> Inr [1, 2, 3]"
proof -
  have "Decode fec_1_2_4 [None, Some [1, 2, 3, 0], Some [1, 2, 3, 0]] [False, True, True] = Inr [1, 2, 3, 0]"
    by (simp add: Decode_def fec_1_2_4_def presentCount_def copy_encoder_def copy_Reconstruct_def)
  with Encode_example show ?thesis by simp
qed

subsection \<open>Decoding with too few shards\<close>

text \<open>Claim C2. When more than \<open>parityShards\<close> of the \<open>dataShards + parityShards\<close> shards
  of a block are marked missing, \<open>Decode\<close> returns \<open>ErrIncomplete\<close>, whatever the
  Reed-Solomon codec is; and whenever fewer than \<open>dataShards\<close> shards are marked present,
  on any input at all, \<open>Decode\<close> returns no byte string.\<close>

theorem Decode_too_many_missing:
  "(int (length shards) = dataShards f + parityShards f \<and>
    length shardPresent = length shards \<and>
    parityShards f < int (length (filter (\<lambda>present. \<not> present) shardPresent))
      \<longrightarrow> Decode f shards shardPresent = Inl ErrIncomplete) \<and>
   (int (presentCount shardPresent) < dataShards f
      \<longrightarrow> (\<forall>bs. Decode f shards shardPresent \<noteq> Inr bs))"
proof (intro conjI impI)
  assume h: "int (length shards) = dataShards f + parityShards f \<and>
    length shardPresent = length shards \<and>
    parityShards f < int (length (filter (\<lambda>present. \<not> present) shardPresent))"
  have "length (filter (\<lambda>present. present) shardPresent)
        + length (filter (\<lambda>present. \<not> present) shardPresent) = length shardPresent"
    by (rule sum_length_filter_compl)
  with h have "int (presentCount shardPresent) < dataShards f"
    by (simp add: presentCount_def)
  with h show "Decode f shards shardPresent = Inl ErrIncomplete"
    by (simp add: Decode_def)
next
  assume "int (presentCount shardPresent) < dataShards f"
  then show "\<forall>bs. Decode f shards shardPresent \<noteq> Inr bs"
    by (simp add: Decode_def)
qed

theorem Decode_too_many_missing_witness:
  "Decode fec_1_2_4 [Some [1, 2, 3, 4], None, None] [False, False, False] = Inl ErrIncomplete"
  using Decode_too_many_missing [of "[Some [1, 2, 3, 4], None, None]" fec_1_2_4 "[False, False, False]"]
  by (simp add: fec_1_2_4_def presentCount_def)

section \<open>Building and sending a packet: proofs\<close>

lemma length_PutUint16 [simp]: "length (PutUint16 b i v) = length b"
  by (simp add: PutUint16_def)

lemma length_PutUint32 [simp]: "length (PutUint32 b i v) = length b"
  by (simp add: PutUint32_def)

lemma length_copy_range [simp]:
  "lo \<le> hi \<Longrightarrow> hi \<le> length b \<Longrightarrow> length (copy_range b lo hi src) = length b"
  by (simp add: copy_range_def)



lemma BuildIPHeader_fields:
  "BuildIPHeader src dst protocol payloadLen =
     PutUint16 (ip_fields src dst protocol payloadLen) 10
       (CalculateChecksum (ip_fields src dst protocol payloadLen))"
  by (simp add: BuildIPHeader_def ip_fields_def Let_def)

lemma length_ip_fields [simp]: "length (ip_fields src dst protocol payloadLen) = 20"
  by (simp add: ip_fields_def Let_def IPHeaderSize_def)









lemma length_pseudo_header [simp]: "length (pseudo_header src dst tcpLen) = 12"
  by (simp add: pseudo_header_def Let_def)



lemma length_BuildIPHeader [simp]: "length (BuildIPHeader src dst protocol payloadLen) = 20"
  by (simp add: BuildIPHeader_fields)





































lemma length_addr4 [simp]: "length (addr4 ip) = 4"
  by (simp add: addr4_def)






lemma BuildIPHeader_example:
  "BuildIPHeader [10, 0, 0, 1] [10, 0, 0, 2] 6 20 = ip_header_example"
  by code_simp

lemma CalculateChecksum_example: "CalculateChecksum [1, 2, 3] = 64509"
  by code_simp

subsection \<open>The headers of a sent packet\<close>




subsection \<open>The checksums of a sent packet\<close>



section \<open>Receiving a packet: proofs\<close>

text \<open>When the byte count does not exceed the buffer and is at least 40, no slice
  expression of \<open>RecvPacket\<close> is out of range, and the result can be read off the
  buffer.\<close>

lemma RecvPacket_flat:
  assumes le: "n \<le> int (length buf)" and n40: "40 \<le> n"
  shows "RecvPacket buf (Inr n) =
     (if int (ihl_of buf) > n then RecvError ''invalid IP header length''
      else if buf ! 9 \<noteq> IPPROTO_TCP then RecvError ''not a TCP packet''
      else if n < int (ihl_of buf) + 20 then RecvError ''packet too small for TCP header''
      else Received
        \<lparr>srcIP = IPv4 (buf ! 12) (buf ! 13) (buf ! 14) (buf ! 15),
         srcPort = Uint16 (take 2 (drop (ihl_of buf) buf)),
         dstIP = IPv4 (buf ! 16) (buf ! 17) (buf ! 18) (buf ! 19),
         dstPort = Uint16 (take 2 (drop (ihl_of buf + 2) buf)),
         seq = Uint32 (take 4 (drop (ihl_of buf + 4) buf)),
         ack = Uint32 (take 4 (drop (ihl_of buf + 8) buf)),
         flags = buf ! (ihl_of buf + 13),
         payload = (if ihl_of buf + data_offset_of buf < nat n
                    then Some (take (nat n - (ihl_of buf + data_offset_of buf))
                                 (drop (ihl_of buf + data_offset_of buf) buf))
                    else None)\<rparr>)"
proof -
  define h where "h = ihl_of buf"
  have len20: "20 \<le> length buf" using le n40 by simp
  have s1: "slice buf 0 20 = Some (take 20 buf)"
    using len20 by (simp add: slice_def)
  have n40': "\<not> n < 40" using n40 by simp
  have ih: "unat ((buf ! 0 AND 0x0F) * 4) = h"
    by (simp add: h_def ihl_of_def)
  show ?thesis
  proof (cases "int h > n \<or> buf ! 9 \<noteq> IPPROTO_TCP \<or> n < int h + 20")
    case True
    then show ?thesis
      unfolding RecvPacket_def h_def [symmetric]
      by (auto simp: s1 ih IPHeaderSize_def TCPHeaderSize_def Let_def n40' simp del: of_nat_unat)
  next
    case False
    then have ok: "int h \<le> n" "buf ! 9 = IPPROTO_TCP" "int h + 20 \<le> n" by auto
    have s2: "slice buf (int h) (int h + 20) = Some (take 20 (drop h buf))"
      using ok le by (simp add: slice_def nat_add_distrib)
    have hl: "h + 20 \<le> length buf" using ok le by linarith
    define d where "d = data_offset_of buf"
    have dd: "unat (drop_bit 4 (buf ! (h + 12)) * 4) = d"
      by (simp add: d_def data_offset_of_def h_def [symmetric])
    have f12: "take 20 (drop h buf) ! 12 = buf ! (h + 12)" using hl by simp
    have s3: "h + d < nat n \<Longrightarrow> slice buf (int h + int d) n
          = Some (take (nat n - (h + d)) (drop (h + d) buf))"
      using le by (simp add: slice_def nat_add_distrib)
    have cp: "h + d < nat n \<Longrightarrow>
        copy (replicate (nat (n - (int h + int d))) 0) (take (nat n - (h + d)) (drop (h + d) buf))
          = take (nat n - (h + d)) (drop (h + d) buf)"
      using le by (intro copy_fresh) (simp add: nat_diff_distrib nat_add_distrib)
    have f13: "take 20 (drop h buf) ! 13 = buf ! (h + 13)" using hl by simp
    have t2: "take 2 (take 20 (drop h buf)) = take 2 (drop h buf)" by simp
    have t22: "take 2 (drop 2 (take 20 (drop h buf))) = take 2 (drop (h + 2) buf)"
      by (simp add: drop_take add.commute)
    have t44: "take 4 (drop 4 (take 20 (drop h buf))) = take 4 (drop (h + 4) buf)"
      by (simp add: drop_take add.commute)
    have t48: "take 4 (drop 8 (take 20 (drop h buf))) = take 4 (drop (h + 8) buf)"
      by (simp add: drop_take add.commute)
    have lt: "(int h + int d < n) = (h + d < nat n)" using n40 by linarith
    show ?thesis
      unfolding RecvPacket_def h_def [symmetric] d_def [symmetric]
      using ok n40' s3 cp
      by (simp add: s1 ih s2 dd IPHeaderSize_def TCPHeaderSize_def Let_def f12 f13 t2 t22 t44 t48 lt
          del: take_take drop_drop of_nat_unat)
  qed
qed

lemma dgram_data_RecvPacket:
  "RecvPacket (dgram_data @ replicate 17 0) (Inr 47) = Received
     \<lparr>srcIP = IPv4 10 0 0 1, srcPort = 1234, dstIP = IPv4 10 0 0 2, dstPort = 80,
      seq = 1, ack = 2, flags = 0x18, payload = Some [1, 2, 3]\<rparr>"
  by (simp add: RecvPacket_def dgram_data_def ip_header_example_def slice_def IPHeaderSize_def
      TCPHeaderSize_def IPPROTO_TCP_def Uint16_def Uint32_def copy_def Let_def)

text \<open>Claim C5, as amended. For a byte count \<open>n\<close> within the buffer, \<open>RecvPacket\<close> returns an
  error when \<open>n\<close> is below 40, when the IHL-derived header length exceeds \<open>n\<close>, when the
  protocol byte is not TCP, or when fewer than 20 bytes follow the IP header. Otherwise
  it returns the addresses, ports, sequence and acknowledgement numbers and flags read
  at the IHL-derived offset. The TCP data offset is not checked: it only places the
  payload, which is the bytes from the IHL-derived length plus the data-offset-derived
  length up to \<open>n\<close> when that start lies below \<open>n\<close>, and nil otherwise.\<close>

theorem RecvPacket_checks:
  assumes "n \<le> int (length buf)"
  shows "(n < 40 \<or> n < int (ihl_of buf) \<or> buf ! 9 \<noteq> IPPROTO_TCP \<or> n < int (ihl_of buf) + 20
            \<longrightarrow> (\<exists>e. RecvPacket buf (Inr n) = RecvError e)) \<and>
         (40 \<le> n \<and> int (ihl_of buf) + 20 \<le> n \<and> buf ! 9 = IPPROTO_TCP
            \<longrightarrow> RecvPacket buf (Inr n) = Received
                  \<lparr>srcIP = IPv4 (buf ! 12) (buf ! 13) (buf ! 14) (buf ! 15),
                   srcPort = Uint16 (take 2 (drop (ihl_of buf) buf)),
                   dstIP = IPv4 (buf ! 16) (buf ! 17) (buf ! 18) (buf ! 19),
                   dstPort = Uint16 (take 2 (drop (ihl_of buf + 2) buf)),
                   seq = Uint32 (take 4 (drop (ihl_of buf + 4) buf)),
                   ack = Uint32 (take 4 (drop (ihl_of buf + 8) buf)),
                   flags = buf ! (ihl_of buf + 13),
                   payload = (if ihl_of buf + data_offset_of buf < nat n
                              then Some (take (nat n - (ihl_of buf + data_offset_of buf))
                                           (drop (ihl_of buf + data_offset_of buf) buf))
                              else None)\<rparr>)"
proof (cases "n < 40")
  case True
  then show ?thesis by (simp add: RecvPacket_def IPHeaderSize_def TCPHeaderSize_def)
next
  case False
  then have "40 \<le> n" by simp
  with assms show ?thesis by (auto simp: RecvPacket_flat)
qed

theorem RecvPacket_checks_witness:
  "(\<exists>e. RecvPacket (dgram_data @ replicate 17 0) (Inr 30) = RecvError e) \<and>
   RecvPacket (dgram_data @ replicate 17 0) (Inr 47) = Received
     \<lparr>srcIP = IPv4 10 0 0 1, srcPort = 1234, dstIP = IPv4 10 0 0 2, dstPort = 80,
      seq = 1, ack = 2, flags = 0x18, payload = Some [1, 2, 3]\<rparr>"
proof -
  have l: "length (dgram_data @ replicate 17 (0::byte)) = 64"
    by (simp add: dgram_data_def ip_header_example_def)
  have i: "ihl_of (dgram_data @ replicate 17 0) = 20"
    by (simp add: ihl_of_def dgram_data_def ip_header_example_def)
  have d: "data_offset_of (dgram_data @ replicate 17 0) = 24"
    unfolding data_offset_of_def i by (simp add: dgram_data_def ip_header_example_def nth_append)
  have "(30::int) \<le> int (length (dgram_data @ replicate 17 (0::byte)))" using l by simp
  from RecvPacket_checks [OF this, THEN conjunct1]
  have a: "\<exists>e. RecvPacket (dgram_data @ replicate 17 0) (Inr 30) = RecvError e" by simp
  have "(47::int) \<le> int (length (dgram_data @ replicate 17 (0::byte)))" using l by simp
  from RecvPacket_checks [OF this, THEN conjunct2]
  have b: "RecvPacket (dgram_data @ replicate 17 0) (Inr 47) = Received
     \<lparr>srcIP = IPv4 10 0 0 1, srcPort = 1234, dstIP = IPv4 10 0 0 2, dstPort = 80,
      seq = 1, ack = 2, flags = 0x18, payload = Some [1, 2, 3]\<rparr>"
    by (simp add: i d) (simp add: dgram_data_def ip_header_example_def IPPROTO_TCP_def Uint16_def Uint32_def)
  from a b show ?thesis by simp
qed

text \<open>Claim C5 as stated fails. A datagram of 40 bytes whose TCP header declares 60 bytes
  is too short for that header, and one whose data offset is 0 declares no header at
  all; \<open>RecvPacket\<close> returns a packet for both, with a nil payload for the first and
  with the TCP header itself inside the payload for the second.\<close>

theorem RecvPacket_data_offset_unchecked:
  "length dgram_offset_15 = 40 \<and> ihl_of dgram_offset_15 = 20 \<and> data_offset_of dgram_offset_15 = 60 \<and>
   RecvPacket dgram_offset_15 (Inr 40) = Received
     \<lparr>srcIP = IPv4 10 0 0 1, srcPort = 1234, dstIP = IPv4 10 0 0 2, dstPort = 80,
      seq = 1, ack = 2, flags = 0x18, payload = None\<rparr> \<and>
   length dgram_offset_0 = 44 \<and> ihl_of dgram_offset_0 = 20 \<and> data_offset_of dgram_offset_0 = 0 \<and>
   RecvPacket dgram_offset_0 (Inr 44) = Received
     \<lparr>srcIP = IPv4 10 0 0 1, srcPort = 1234, dstIP = IPv4 10 0 0 2, dstPort = 80,
      seq = 1, ack = 2, flags = 0x18,
      payload = Some [0x04, 0xD2, 0, 80, 0, 0, 0, 1, 0, 0, 0, 2, 0x00, 0x18, 0xFF, 0xFF, 0, 0, 0, 0,
                      9, 9, 9, 9]\<rparr>"
proof -
  have i15: "ihl_of dgram_offset_15 = 20"
    by (simp add: ihl_of_def dgram_offset_15_def ip_header_example_def)
  have d15: "data_offset_of dgram_offset_15 = 60"
    unfolding data_offset_of_def i15 by (simp add: dgram_offset_15_def ip_header_example_def)
  have i0: "ihl_of dgram_offset_0 = 20"
    by (simp add: ihl_of_def dgram_offset_0_def ip_header_example_def)
  have d0: "data_offset_of dgram_offset_0 = 0"
    unfolding data_offset_of_def i0 by (simp add: dgram_offset_0_def ip_header_example_def)
  have r15: "RecvPacket dgram_offset_15 (Inr 40) = Received
     \<lparr>srcIP = IPv4 10 0 0 1, srcPort = 1234, dstIP = IPv4 10 0 0 2, dstPort = 80,
      seq = 1, ack = 2, flags = 0x18, payload = None\<rparr>"
    by (simp add: RecvPacket_def dgram_offset_15_def ip_header_example_def slice_def IPHeaderSize_def
      TCPHeaderSize_def IPPROTO_TCP_def Uint16_def Uint32_def copy_def Let_def)
  have r0: "RecvPacket dgram_offset_0 (Inr 44) = Received
     \<lparr>srcIP = IPv4 10 0 0 1, srcPort = 1234, dstIP = IPv4 10 0 0 2, dstPort = 80,
      seq = 1, ack = 2, flags = 0x18,
      payload = Some [0x04, 0xD2, 0, 80, 0, 0, 0, 1, 0, 0, 0, 2, 0x00, 0x18, 0xFF, 0xFF, 0, 0, 0, 0,
                      9, 9, 9, 9]\<rparr>"
    by (simp add: RecvPacket_def dgram_offset_0_def ip_header_example_def slice_def IPHeaderSize_def
      TCPHeaderSize_def IPPROTO_TCP_def Uint16_def Uint32_def copy_def Let_def)
  have "length dgram_offset_15 = 40" "length dgram_offset_0 = 44"
    by (simp_all add: dgram_offset_15_def dgram_offset_0_def ip_header_example_def)
  with i15 d15 i0 d0 r15 r0 show ?thesis by simp
qed

text \<open>Claim C10. \<open>Recvfrom\<close> stores at most \<open>len(buf)\<close> bytes, so its byte count \<open>n\<close> does
  not exceed the buffer. Then \<open>RecvPacket\<close> never panics on a slice out of range,
  whether \<open>Recvfrom\<close> failed or returned \<open>n\<close>; a count below 40 yields an error; and a
  payload that is not nil has exactly \<open>n\<close> less the IHL-derived length less the
  data-offset-derived length bytes.\<close>

theorem RecvPacket_total:
  assumes "n \<le> int (length buf)"
  shows "RecvPacket buf (Inr n) \<noteq> Panic \<and> RecvPacket buf (Inl e) \<noteq> Panic \<and>
         (n < 40 \<longrightarrow> (\<exists>msg. RecvPacket buf (Inr n) = RecvError msg)) \<and>
         (\<forall>p bytes. RecvPacket buf (Inr n) = Received p \<and> payload p = Some bytes
            \<longrightarrow> int (length bytes) = n - int (ihl_of buf) - int (data_offset_of buf))"
proof (cases "n < 40")
  case True
  then show ?thesis by (simp add: RecvPacket_def IPHeaderSize_def TCPHeaderSize_def)
next
  case False
  then have n40: "40 \<le> n" by simp
  have "RecvPacket buf (Inl e) \<noteq> Panic" by (simp add: RecvPacket_def)
  moreover have "RecvPacket buf (Inr n) \<noteq> Panic"
    using assms n40 by (simp add: RecvPacket_flat)
  moreover have "\<forall>p bytes. RecvPacket buf (Inr n) = Received p \<and> payload p = Some bytes
            \<longrightarrow> int (length bytes) = n - int (ihl_of buf) - int (data_offset_of buf)"
    using assms n40 by (auto simp: RecvPacket_flat split: if_splits)
  ultimately show ?thesis using False by simp
qed

theorem RecvPacket_total_witness:
  "int (length [1, 2, 3 :: byte])
     = 47 - int (ihl_of (dgram_data @ replicate 17 0)) - int (data_offset_of (dgram_data @ replicate 17 0))"
proof -
  have "(47::int) \<le> int (length (dgram_data @ replicate 17 (0::byte)))"
    by (simp add: dgram_data_def ip_header_example_def)
  from RecvPacket_total [where e = "[]", OF this] dgram_data_RecvPacket
  show ?thesis by simp
qed

section \<open>Path MTU discovery: proofs\<close>

lemma mid_bounds:
  assumes "0 \<le> low" "low \<le> high"
  shows "low \<le> go_div (low + high) 2" "go_div (low + high) 2 \<le> high"
  using assms by (simp_all add: go_div_nonneg)

lemma probe_loop_trace:
  assumes "0 \<le> low"
  shows "\<exists>new. snd (snd (probe_loop probe low high optimal attempts tested)) = tested @ new \<and>
           length new \<le> maxAttempts - attempts \<and> (\<forall>t\<in>set new. low \<le> t \<and> t \<le> high)"
  using assms
proof (induction probe low high optimal attempts tested rule: probe_loop.induct)
  case (1 probe low high optimal attempts tested)
  show ?case
  proof (cases "low \<le> high \<and> attempts < maxAttempts")
    case False
    then have "probe_loop probe low high optimal attempts tested = (optimal, attempts, tested)"
      by (subst probe_loop.simps) auto
    then show ?thesis by simp
  next
    case True
    define mtu where "mtu = go_div (low + high) 2"
    have mb: "low \<le> mtu" "mtu \<le> high"
      using mid_bounds [of low high] True "1.prems" by (simp_all add: mtu_def)
    show ?thesis
    proof (cases "probe (attempts + 1) mtu")
      case pt: True
      have "0 \<le> mtu + 1" using mb "1.prems" by simp
      with "1.IH"(1) [OF True refl mtu_def pt]
      obtain new where new: "snd (snd (probe_loop probe (mtu + 1) high mtu (attempts + 1) (tested @ [mtu])))
            = (tested @ [mtu]) @ new"
          "length new \<le> maxAttempts - (attempts + 1)" "\<forall>t\<in>set new. mtu + 1 \<le> t \<and> t \<le> high"
        by blast
      have eq: "probe_loop probe low high optimal attempts tested
          = probe_loop probe (mtu + 1) high mtu (attempts + 1) (tested @ [mtu])"
        using True pt by (subst probe_loop.simps) (simp add: mtu_def Let_def)
      have "snd (snd (probe_loop probe low high optimal attempts tested)) = tested @ (mtu # new)"
        using new(1) eq by simp
      moreover have "length (mtu # new) \<le> maxAttempts - attempts" using new(2) True by auto
      moreover have "\<forall>t\<in>set (mtu # new). low \<le> t \<and> t \<le> high" using new(3) mb by auto
      ultimately show ?thesis by blast
    next
      case pf: False
      with "1.IH"(2) [OF True refl mtu_def pf] "1.prems"
      obtain new where new: "snd (snd (probe_loop probe low (mtu - 1) optimal (attempts + 1) (tested @ [mtu])))
            = (tested @ [mtu]) @ new"
          "length new \<le> maxAttempts - (attempts + 1)" "\<forall>t\<in>set new. low \<le> t \<and> t \<le> mtu - 1"
        by blast
      have eq: "probe_loop probe low high optimal attempts tested
          = probe_loop probe low (mtu - 1) optimal (attempts + 1) (tested @ [mtu])"
        using True pf by (subst probe_loop.simps) (simp add: mtu_def Let_def)
      have "snd (snd (probe_loop probe low high optimal attempts tested)) = tested @ (mtu # new)"
        using new(1) eq by simp
      moreover have "length (mtu # new) \<le> maxAttempts - attempts" using new(2) True by auto
      moreover have "\<forall>t\<in>set (mtu # new). low \<le> t \<and> t \<le> high" using new(3) mb by auto
      ultimately show ?thesis by blast
    qed
  qed
qed

lemma probe_loop_optimal:
  assumes "0 \<le> low"
  shows "fst (probe_loop probe low high optimal attempts tested) = optimal \<or>
         (low \<le> fst (probe_loop probe low high optimal attempts tested) \<and>
          fst (probe_loop probe low high optimal attempts tested) \<le> high)"
  using assms
proof (induction probe low high optimal attempts tested rule: probe_loop.induct)
  case (1 probe low high optimal attempts tested)
  show ?case
  proof (cases "low \<le> high \<and> attempts < maxAttempts")
    case False
    then have "probe_loop probe low high optimal attempts tested = (optimal, attempts, tested)"
      by (subst probe_loop.simps) auto
    then show ?thesis by simp
  next
    case True
    define mtu where "mtu = go_div (low + high) 2"
    have mb: "low \<le> mtu" "mtu \<le> high"
      using mid_bounds [of low high] True "1.prems" by (simp_all add: mtu_def)
    show ?thesis
    proof (cases "probe (attempts + 1) mtu")
      case pt: True
      have eq: "probe_loop probe low high optimal attempts tested
          = probe_loop probe (mtu + 1) high mtu (attempts + 1) (tested @ [mtu])"
        using True pt by (subst probe_loop.simps) (simp add: mtu_def Let_def)
      have "0 \<le> mtu + 1" using mb "1.prems" by simp
      with "1.IH"(1) [OF True refl mtu_def pt] show ?thesis
        unfolding eq using mb by auto
    next
      case pf: False
      have eq: "probe_loop probe low high optimal attempts tested
          = probe_loop probe low (mtu - 1) optimal (attempts + 1) (tested @ [mtu])"
        using True pf by (subst probe_loop.simps) (simp add: mtu_def Let_def)
      from "1.IH"(2) [OF True refl mtu_def pf] "1.prems" show ?thesis
        unfolding eq using mb by auto
    qed
  qed
qed

lemma probe_loop_threshold:
  assumes "\<forall>k t. probe k t = (t \<le> pmtu)" "0 \<le> low" "low - 1 \<le> pmtu" "pmtu \<le> high"
    and "optimal = low - 1 \<or> (optimal = low \<and> low \<le> pmtu)"
    and "attempts \<le> maxAttempts" "high - low + 2 \<le> 2 ^ (maxAttempts - attempts)"
  shows "fst (probe_loop probe low high optimal attempts tested) = pmtu"
  using assms
proof (induction probe low high optimal attempts tested rule: probe_loop.induct)
  case (1 probe low high optimal attempts tested)
  show ?case
  proof (cases "low \<le> high")
    case False
    with "1.prems" have "pmtu = low - 1" by simp
    moreover from False "1.prems" have "optimal = low - 1" by auto
    ultimately show ?thesis using False by (simp add: probe_loop.simps)
  next
    case lh: True
    have att: "attempts < maxAttempts"
    proof (rule ccontr)
      assume "\<not> attempts < maxAttempts"
      with "1.prems"(7) have "high - low + 2 \<le> 1" by simp
      with lh show False by simp
    qed
    with lh have True: "low \<le> high \<and> attempts < maxAttempts" by simp
    define mtu where "mtu = go_div (low + high) 2"
    have mdiv: "mtu = (low + high) div 2"
      using "1.prems"(2) lh by (simp add: mtu_def go_div_nonneg)
    have mb: "low \<le> mtu" "mtu \<le> high" using mdiv lh by simp_all
    have pw: "(2::int) ^ (maxAttempts - attempts) = 2 * 2 ^ (maxAttempts - (attempts + 1))"
      using att by (metis Suc_diff_Suc Suc_eq_plus1 diff_Suc_eq_diff_pred diff_diff_left power_Suc)
    show ?thesis
    proof (cases "probe (attempts + 1) mtu")
      case pt: True
      have eq: "probe_loop probe low high optimal attempts tested
          = probe_loop probe (mtu + 1) high mtu (attempts + 1) (tested @ [mtu])"
        using True pt by (subst probe_loop.simps) (simp add: mtu_def Let_def)
      from pt "1.prems"(1) have le: "mtu \<le> pmtu" by simp
      have sz: "high - (mtu + 1) + 2 \<le> 2 ^ (maxAttempts - (attempts + 1))"
        using "1.prems"(7) unfolding pw mdiv by linarith
      have "fst (probe_loop probe (mtu + 1) high mtu (attempts + 1) (tested @ [mtu])) = pmtu"
        using "1.prems"(1) mb "1.prems"(2) le "1.prems"(4) att sz
        by (intro "1.IH"(1) [OF True refl mtu_def pt]) simp_all
      then show ?thesis by (simp only: eq)
    next
      case pf: False
      have eq: "probe_loop probe low high optimal attempts tested
          = probe_loop probe low (mtu - 1) optimal (attempts + 1) (tested @ [mtu])"
        using True pf by (subst probe_loop.simps) (simp add: mtu_def Let_def)
      from pf "1.prems"(1) have gt: "pmtu < mtu" by simp
      have sz: "(mtu - 1) - low + 2 \<le> 2 ^ (maxAttempts - (attempts + 1))"
        using "1.prems"(7) unfolding pw mdiv by linarith
      have "fst (probe_loop probe low (mtu - 1) optimal (attempts + 1) (tested @ [mtu])) = pmtu"
        using "1.prems"(1,2,3,5) gt att sz
        by (intro "1.IH"(2) [OF True refl mtu_def pf]) simp_all
      then show ?thesis by (simp only: eq)
    qed
  qed
qed

text \<open>Claim C4. When the remote address resolves, \<open>DiscoverOptimalMTU\<close> on a value of
  \<open>NewMTUDiscovery\<close> returns, without error, the size \<open>optimal\<close> found by the probe loop
  less 20, 20, 1 and 28, clamped into 500 to 1371. The loop calls the probe at most 10
  times, every size it tries and the size it finds lie in 576 to 1500, and when the
  probe answers as a path of MTU \<open>pmtu\<close> in that range does (a size passes exactly when
  it is at most \<open>pmtu\<close>) the loop finds \<open>pmtu\<close> itself.\<close>

theorem DiscoverOptimalMTU_budget:
  assumes "splitHostPort net addr = Inr host" "lookupIP net host = Inr ips" "ips \<noteq> []"
  shows "\<exists>optimal attempts tested.
           probe_loop (\<lambda>k. testMTU net k (hd ips)) 576 1500 576 0 [] = (optimal, attempts, tested) \<and>
           DiscoverOptimalMTU net (NewMTUDiscovery addr initialMTU)
             = (max 500 (min 1371 (optimal - 20 - 20 - 1 - 28)), None, tested) \<and>
           length tested \<le> 10 \<and>
           (\<forall>t\<in>set tested. 576 \<le> t \<and> t \<le> 1500) \<and>
           576 \<le> optimal \<and> optimal \<le> 1500 \<and>
           (\<forall>pmtu. 576 \<le> pmtu \<and> pmtu \<le> 1500 \<and> (\<forall>k t. testMTU net k (hd ips) t = (t \<le> pmtu))
              \<longrightarrow> optimal = pmtu)"
proof -
  define probe where "probe = (\<lambda>k. testMTU net k (hd ips))"
  obtain optimal attempts tested where
    pl: "probe_loop probe 576 1500 576 0 [] = (optimal, attempts, tested)"
    by (cases "probe_loop probe 576 1500 576 0 []") auto
  have tr: "length tested \<le> 10" "\<forall>t\<in>set tested. 576 \<le> t \<and> t \<le> 1500"
    using probe_loop_trace [of 576 probe 1500 576 0 "[]"] pl by (auto simp: maxAttempts_def)
  have op: "576 \<le> optimal \<and> optimal \<le> 1500"
    using probe_loop_optimal [of 576 probe 1500 576 0 "[]"] pl by auto
  have th: "\<forall>pmtu. 576 \<le> pmtu \<and> pmtu \<le> 1500 \<and> (\<forall>k t. probe k t = (t \<le> pmtu)) \<longrightarrow> optimal = pmtu"
  proof (intro allI impI)
    fix pmtu
    assume h: "576 \<le> pmtu \<and> pmtu \<le> 1500 \<and> (\<forall>k t. probe k t = (t \<le> pmtu))"
    have "fst (probe_loop probe 576 1500 576 0 []) = pmtu"
      using h by (intro probe_loop_threshold) (simp_all add: maxAttempts_def)
    with pl show "optimal = pmtu" by simp
  qed
  have "DiscoverOptimalMTU net (NewMTUDiscovery addr initialMTU)
      = (max 500 (min 1371 (optimal - 20 - 20 - 1 - 28)), None, tested)"
    using assms pl op
    by (simp add: DiscoverOptimalMTU_def NewMTUDiscovery_def probe_def [symmetric])
  with pl tr op th show ?thesis unfolding probe_def by blast
qed

theorem DiscoverOptimalMTU_budget_witness:
  "fst (DiscoverOptimalMTU (path_network 1400) (NewMTUDiscovery ''10.0.0.1:9000'' 1200)) = 1331"
proof -
  have "splitHostPort (path_network 1400) ''10.0.0.1:9000'' = Inr ''10.0.0.1''"
    by (simp add: path_network_def)
  moreover have "lookupIP (path_network 1400) ''10.0.0.1'' = Inr [''10.0.0.1'']"
    by (simp add: path_network_def)
  moreover have "[''10.0.0.1''] \<noteq> []" by simp
  ultimately obtain optimal attempts tested where
    r: "DiscoverOptimalMTU (path_network 1400) (NewMTUDiscovery ''10.0.0.1:9000'' 1200)
          = (max 500 (min 1371 (optimal - 20 - 20 - 1 - 28)), None, tested)"
      "\<forall>pmtu. 576 \<le> pmtu \<and> pmtu \<le> 1500 \<and>
          (\<forall>k t. testMTU (path_network 1400) k (hd [''10.0.0.1'']) t = (t \<le> pmtu)) \<longrightarrow> optimal = pmtu"
    using DiscoverOptimalMTU_budget [of "path_network 1400" "''10.0.0.1:9000''" "''10.0.0.1''" "[''10.0.0.1'']" 1200]
    by blast
  from r(2) have "optimal = 1400" by (simp add: path_network_def)
  with r(1) show ?thesis by simp
qed

section \<open>The firewall rules: proofs\<close>

lemma runs_exec_iptables:
  "exec_iptables ipt args h = ((output, err), h') \<Longrightarrow> runs h' = runs h @ [(args, output, err)]"
  by (auto simp: exec_iptables_def Let_def split: prod.splits)

lemma successful_adds_append [simp]:
  "successful_adds (xs @ ys) = successful_adds xs @ successful_adds ys"
  by (simp add: successful_adds_def)

lemma successful_adds_Nil [simp]: "successful_adds [] = []"
  by (simp add: successful_adds_def)

lemma successful_adds_check [simp]: "successful_adds [(''-C'' # args, out, err)] = []"
  by (simp add: successful_adds_def)

lemma successful_adds_add [simp]:
  "successful_adds [(''-A'' # args, out, err)] = (if err = None then [''-A'' # args] else [])"
  by (simp add: successful_adds_def)

lemma remove_loop_eq:
  "remove_loop ipt rs errs h =
     (errs @ removal_failures (zip rs (fst (delete_runs ipt rs (kernel h)))),
      \<lparr>kernel = snd (delete_runs ipt rs (kernel h)),
       runs = runs h @ fst (delete_runs ipt rs (kernel h))\<rparr>)"
proof (induction rs arbitrary: errs h)
  case Nil
  show ?case by simp
next
  case (Cons rule rest)
  obtain out err k1 where i: "ipt (''-D'' # split_on CHR '' '' rule) (kernel h) = ((out, err), k1)"
    by (metis prod.exhaust)
  obtain rs k2 where d: "delete_runs ipt rest k1 = (rs, k2)" by (metis prod.exhaust)
  define h1 :: "'a host" where
    "h1 = \<lparr>kernel = k1, runs = runs h @ [(''-D'' # split_on CHR '' '' rule, out, err)]\<rparr>"
  have e: "exec_iptables ipt (''-D'' # split_on CHR '' '' rule) h = ((out, err), h1)"
    using i by (simp add: exec_iptables_def h1_def)
  have dr: "delete_runs ipt (rule # rest) (kernel h) = ((''-D'' # split_on CHR '' '' rule, out, err) # rs, k2)"
    using i d by (simp add: Let_def)
  have k1: "kernel h1 = k1" "runs h1 = runs h @ [(''-D'' # split_on CHR '' '' rule, out, err)]"
    by (simp_all add: h1_def)
  show ?case
  proof (cases err)
    case None
    with e have "remove_loop ipt (rule # rest) errs h = remove_loop ipt rest errs h1"
      by (simp add: Let_def)
    also note Cons.IH [of errs h1]
    finally show ?thesis unfolding dr k1 d using None by simp
  next
    case (Some er)
    define msg where "msg = ''failed to remove rule '' @ [CHR 0x27] @ rule @ [CHR 0x27] @ '': '' @ er
             @ '', output: '' @ out"
    from Some e have "remove_loop ipt (rule # rest) errs h = remove_loop ipt rest (errs @ [msg]) h1"
      by (simp add: Let_def msg_def)
    also note Cons.IH [of "errs @ [msg]" h1]
    finally show ?thesis unfolding dr k1 d using Some by (simp add: msg_def)
  qed
qed

lemma ruleExists_runs:
  "ruleExists ipt rule h = (ex, h') \<Longrightarrow> \<exists>out err. runs h' = runs h @ [(''-C'' # split_on CHR '' '' rule, out, err)]"
  by (auto simp: ruleExists_def exec_iptables_def Let_def split: prod.splits)

lemma add_step:
  assumes "ruleExists ipt rule h = (False, h1)"
    and "exec_iptables ipt (''-A'' # split_on CHR '' '' rule) h1 = ((out, err), h2)"
  shows "\<exists>rs. runs h2 = runs h @ rs \<and>
           successful_adds rs = (if err = None then [''-A'' # split_on CHR '' '' rule] else [])"
proof -
  from ruleExists_runs [OF assms(1)] obtain o1 e1 where
    "runs h1 = runs h @ [(''-C'' # split_on CHR '' '' rule, o1, e1)]" by blast
  moreover from runs_exec_iptables [OF assms(2)]
  have "runs h2 = runs h1 @ [(''-A'' # split_on CHR '' '' rule, out, err)]" .
  ultimately have "runs h2 = runs h @ [(''-C'' # split_on CHR '' '' rule, o1, e1),
      (''-A'' # split_on CHR '' '' rule, out, err)]" by simp
  moreover have "successful_adds [(''-C'' # split_on CHR '' '' rule, o1, e1),
      (''-A'' # split_on CHR '' '' rule, out, err)] = (if err = None then [''-A'' # split_on CHR '' '' rule] else [])"
    by (simp add: successful_adds_def)
  ultimately show ?thesis by blast
qed

lemma connection_loop_adds:
  "connection_loop ipt m rls h = (e, m', h') \<Longrightarrow>
   \<exists>new rs. rules m' = rules m @ new \<and> runs h' = runs h @ rs \<and>
     successful_adds rs = map (\<lambda>rule. ''-A'' # split_on CHR '' '' rule) new"
proof (induction rls arbitrary: m h)
  case Nil
  then show ?case by simp
next
  case (Cons rule rest)
  obtain ex h1 where r: "ruleExists ipt rule h = (ex, h1)" by (metis prod.exhaust)
  show ?case
  proof (cases ex)
    case True
    with Cons.prems r have "connection_loop ipt m rest h1 = (e, m', h')" by simp
    from Cons.IH [OF this] obtain new rs where n: "rules m' = rules m @ new" "runs h' = runs h1 @ rs"
      "successful_adds rs = map (\<lambda>rule. ''-A'' # split_on CHR '' '' rule) new" by blast
    from ruleExists_runs [OF r] obtain o1 e1 where
      c: "runs h1 = runs h @ [(''-C'' # split_on CHR '' '' rule, o1, e1)]" by blast
    have "runs h' = runs h @ ((''-C'' # split_on CHR '' '' rule, o1, e1) # rs)"
      using n(2) c by simp
    moreover have "successful_adds ((''-C'' # split_on CHR '' '' rule, o1, e1) # rs)
        = map (\<lambda>rule. ''-A'' # split_on CHR '' '' rule) new"
      using n(3) by (simp add: successful_adds_def)
    ultimately show ?thesis using n(1) by blast
  next
    case False
    obtain out err h2 where x: "exec_iptables ipt (''-A'' # split_on CHR '' '' rule) h1 = ((out, err), h2)"
      by (metis prod.exhaust)
    from r False have r': "ruleExists ipt rule h = (False, h1)" by simp
    from add_step [OF r' x] obtain rs1 where s1: "runs h2 = runs h @ rs1"
      "successful_adds rs1 = (if err = None then [''-A'' # split_on CHR '' '' rule] else [])" by blast
    show ?thesis
    proof (cases err)
      case (Some er)
      with Cons.prems r False x have "m' = m" "h' = h2" by (simp_all add: Let_def)
      with s1 Some have "rules m' = rules m @ []" "runs h' = runs h @ rs1"
        "successful_adds rs1 = map (\<lambda>rule. ''-A'' # split_on CHR '' '' rule) []" by simp_all
      then show ?thesis by blast
    next
      case None
      with Cons.prems r False x
      have "connection_loop ipt (m\<lparr>rules := rules m @ [rule]\<rparr>) rest h2 = (e, m', h')"
        by (simp add: Let_def)
      from Cons.IH [OF this] obtain new rs where n: "rules m' = (rules m @ [rule]) @ new"
        "runs h' = runs h2 @ rs"
        "successful_adds rs = map (\<lambda>rule. ''-A'' # split_on CHR '' '' rule) new" by auto
      have "rules m' = rules m @ (rule # new)" using n(1) by simp
      moreover have "runs h' = runs h @ (rs1 @ rs)" using n(2) s1(1) by simp
      moreover have "successful_adds (rs1 @ rs) = map (\<lambda>rule. ''-A'' # split_on CHR '' '' rule) (rule # new)"
        using n(3) s1(2) None by simp
      ultimately show ?thesis by blast
    qed
  qed
qed

lemma AddRuleForPort_adds:
  assumes "AddRuleForPort ipt m port isServer h = (e, m', h')"
  shows "\<exists>new rs. rules m' = rules m @ new \<and> runs h' = runs h @ rs \<and>
     successful_adds rs = map (\<lambda>rule. ''-A'' # split_on CHR '' '' rule) new"
proof -
  have "AddRuleForPort ipt m port isServer h = connection_loop ipt m [port_rule port isServer] h"
    by (simp add: AddRuleForPort_def Let_def split: prod.splits option.splits)
  with assms connection_loop_adds show ?thesis by metis
qed

lemma do_installs_adds:
  "do_installs ipt m calls h = (es, m', h') \<Longrightarrow>
   \<exists>new rs. rules m' = rules m @ new \<and> runs h' = runs h @ rs \<and>
     successful_adds rs = map (\<lambda>rule. ''-A'' # split_on CHR '' '' rule) new"
proof (induction calls arbitrary: m h es m' h')
  case Nil
  then show ?case by simp
next
  case (Cons c cs)
  obtain e m1 h1 where i: "do_install ipt m c h = (e, m1, h1)" by (metis prod.exhaust)
  obtain es1 m2 h2 where j: "do_installs ipt m1 cs h1 = (es1, m2, h2)" by (metis prod.exhaust)
  from Cons.prems i j have eq: "m' = m2" "h' = h2" by simp_all
  have "\<exists>new rs. rules m1 = rules m @ new \<and> runs h1 = runs h @ rs \<and>
     successful_adds rs = map (\<lambda>rule. ''-A'' # split_on CHR '' '' rule) new"
  proof (cases c)
    case (ForPort port isServer)
    with i have "AddRuleForPort ipt m port isServer h = (e, m1, h1)" by simp
    then show ?thesis by (rule AddRuleForPort_adds)
  next
    case (ForConnection lip lport rip rport isServer)
    with i have "connection_loop ipt m (connection_rules lip lport rip rport isServer) h = (e, m1, h1)"
      by (simp add: AddRuleForConnection_def)
    then show ?thesis by (rule connection_loop_adds)
  qed
  then obtain n1 r1 where a: "rules m1 = rules m @ n1" "runs h1 = runs h @ r1"
     "successful_adds r1 = map (\<lambda>rule. ''-A'' # split_on CHR '' '' rule) n1" by blast
  from Cons.IH [OF j] obtain n2 r2 where b: "rules m2 = rules m1 @ n2" "runs h2 = runs h1 @ r2"
     "successful_adds r2 = map (\<lambda>rule. ''-A'' # split_on CHR '' '' rule) n2" by blast
  have "rules m' = rules m @ (n1 @ n2)" "runs h' = runs h @ (r1 @ r2)"
    "successful_adds (r1 @ r2) = map (\<lambda>rule. ''-A'' # split_on CHR '' '' rule) (n1 @ n2)"
    using a b eq by simp_all
  then show ?case by blast
qed

text \<open>The examples, evaluated.\<close>

lemma show_8080: "show_nat 8080 = ''8080''"
  by (simp add: show_nat.simps digit_char_def)

lemma port_rule_8080: "port_rule 8080 True = ''OUTPUT -p tcp --tcp-flags RST RST --sport 8080 -j DROP''"
  by (simp add: port_rule_def show_8080)

lemma split_port_rule_8080:
  "split_on CHR '' '' (port_rule 8080 True)
   = [''OUTPUT'', ''-p'', ''tcp'', ''--tcp-flags'', ''RST'', ''RST'', ''--sport'', ''8080'', ''-j'', ''DROP'']"
  by (simp add: port_rule_8080 Let_def)

lemma port_installed_value:
  "fst port_installed = None \<and> rules (fst (snd port_installed)) = [port_rule 8080 True] \<and>
   fst (ruleExists (table_iptables []) (port_rule 8080 True) (snd (snd port_installed)))"
  by (simp add: port_installed_def AddRuleForPort_def ruleExists_def exec_iptables_def
      table_iptables_def fresh_host_def NewIPTablesManager_def split_port_rule_8080 Let_def)

lemma show_40000: "show_nat 40000 = ''40000''"
  by (simp add: show_nat.simps digit_char_def)

lemma connection_rules_example:
  "connection_rules ''10.0.0.1'' 8080 ''10.0.0.2'' 40000 True =
     [''OUTPUT -p tcp --tcp-flags RST RST -s 10.0.0.1 --sport 8080 -d 10.0.0.2 --dport 40000 -j DROP'']"
  by (simp add: connection_rules_def show_8080 show_40000)

lemma split_connection_rule:
  "split_on CHR '' ''
     ''OUTPUT -p tcp --tcp-flags RST RST -s 10.0.0.1 --sport 8080 -d 10.0.0.2 --dport 40000 -j DROP''
   = [''OUTPUT'', ''-p'', ''tcp'', ''--tcp-flags'', ''RST'', ''RST'', ''-s'', ''10.0.0.1'', ''--sport'',
      ''8080'', ''-d'', ''10.0.0.2'', ''--dport'', ''40000'', ''-j'', ''DROP'']"
  by (simp add: Let_def)

lemma example_installed_value:
  "example_installed =
     ([None, None],
      \<lparr>rules = [port_rule 8080 True,
         ''OUTPUT -p tcp --tcp-flags RST RST -s 10.0.0.1 --sport 8080 -d 10.0.0.2 --dport 40000 -j DROP'']\<rparr>,
      \<lparr>kernel = [split_on CHR '' '' (port_rule 8080 True),
           split_on CHR '' ''
             ''OUTPUT -p tcp --tcp-flags RST RST -s 10.0.0.1 --sport 8080 -d 10.0.0.2 --dport 40000 -j DROP''],
        runs = runs (snd (snd example_installed))\<rparr>)"
  by (simp add: example_installed_def example_installs_def stuck_iptables_def
      AddRuleForPort_def AddRuleForConnection_def connection_rules_example ruleExists_def
      exec_iptables_def table_iptables_def fresh_host_def NewIPTablesManager_def
      split_port_rule_8080 split_connection_rule Let_def)

lemma example_delete_runs:
  "delete_runs stuck_iptables (rules (fst (snd example_installed))) (kernel (snd (snd example_installed)))
   = ([(''-D'' # split_on CHR '' '' (port_rule 8080 True),
        ''iptables: Bad rule (does a matching rule exist in that chain?).'', Some ''exit status 1''),
       (''-D'' # split_on CHR '' ''
          ''OUTPUT -p tcp --tcp-flags RST RST -s 10.0.0.1 --sport 8080 -d 10.0.0.2 --dport 40000 -j DROP'',
        [], None)],
      [split_on CHR '' '' (port_rule 8080 True)])"
proof -
  have m: "fst (snd example_installed) = \<lparr>rules = [port_rule 8080 True,
         ''OUTPUT -p tcp --tcp-flags RST RST -s 10.0.0.1 --sport 8080 -d 10.0.0.2 --dport 40000 -j DROP'']\<rparr>"
    by (subst example_installed_value) simp
  have k: "kernel (snd (snd example_installed)) = [split_on CHR '' '' (port_rule 8080 True),
           split_on CHR '' ''
             ''OUTPUT -p tcp --tcp-flags RST RST -s 10.0.0.1 --sport 8080 -d 10.0.0.2 --dport 40000 -j DROP'']"
    by (subst example_installed_value) simp
  show ?thesis
    unfolding m k
    by (simp add: stuck_iptables_def table_iptables_def split_port_rule_8080 split_connection_rule Let_def)
qed

text \<open>Claim C6. Take any sequence of \<open>AddRuleForPort\<close> and \<open>AddRuleForConnection\<close> calls
  on a new manager, whatever \<open>iptables\<close> answers. The rule list of the manager then holds
  exactly the rules whose \<open>iptables -A\<close> succeeded during these calls, in order.
  \<open>RemoveAllRules\<close> runs \<open>iptables -D\<close> once for each rule of the list, in order and also
  after a run has failed, each run on the kernel the run before left, and runs nothing
  else. It leaves the rule list empty, and its error is the aggregate of the messages of
  all failed runs: none when no run failed.\<close>

theorem RemoveAllRules_empties:
  assumes "do_installs ipt NewIPTablesManager calls h = (es, m1, h1)"
  shows "successful_adds (drop (length (runs h)) (runs h1))
           = map (\<lambda>rule. ''-A'' # split_on CHR '' '' rule) (rules m1) \<and>
         (let (new, k) = delete_runs ipt (rules m1) (kernel h1)
          in RemoveAllRules ipt m1 h1 =
               (aggregate_error (removal_failures (zip (rules m1) new)),
                \<lparr>rules = []\<rparr>,
                \<lparr>kernel = k, runs = runs h1 @ new\<rparr>))"
proof
  from do_installs_adds [OF assms] obtain new rs where n: "rules m1 = rules NewIPTablesManager @ new"
    "runs h1 = runs h @ rs" "successful_adds rs = map (\<lambda>rule. ''-A'' # split_on CHR '' '' rule) new"
    by blast
  then show "successful_adds (drop (length (runs h)) (runs h1))
           = map (\<lambda>rule. ''-A'' # split_on CHR '' '' rule) (rules m1)"
    by (simp add: NewIPTablesManager_def)
  obtain new k where d: "delete_runs ipt (rules m1) (kernel h1) = (new, k)" by (metis prod.exhaust)
  have "RemoveAllRules ipt m1 h1 =
               (aggregate_error (removal_failures (zip (rules m1) new)),
                \<lparr>rules = []\<rparr>,
                \<lparr>kernel = k, runs = runs h1 @ new\<rparr>)"
    by (simp add: RemoveAllRules_def remove_loop_eq d aggregate_error_def Let_def)
  with d show "let (new, k) = delete_runs ipt (rules m1) (kernel h1)
          in RemoveAllRules ipt m1 h1 =
               (aggregate_error (removal_failures (zip (rules m1) new)),
                \<lparr>rules = []\<rparr>,
                \<lparr>kernel = k, runs = runs h1 @ new\<rparr>)" by simp
qed

theorem RemoveAllRules_empties_witness:
  "fst example_installed = [None, None] \<and>
   rules (fst (snd example_installed)) = [port_rule 8080 True,
     ''OUTPUT -p tcp --tcp-flags RST RST -s 10.0.0.1 --sport 8080 -d 10.0.0.2 --dport 40000 -j DROP''] \<and>
   successful_adds (runs (snd (snd example_installed)))
     = [''-A'' # split_on CHR '' '' (port_rule 8080 True),
        ''-A'' # split_on CHR '' ''
          ''OUTPUT -p tcp --tcp-flags RST RST -s 10.0.0.1 --sport 8080 -d 10.0.0.2 --dport 40000 -j DROP''] \<and>
   example_removed =
     (Some (''errors removing rules: failed to remove rule '' @ [CHR 0x27] @ port_rule 8080 True @ [CHR 0x27]
            @ '': exit status 1, output: iptables: Bad rule (does a matching rule exist in that chain?).''),
      \<lparr>rules = []\<rparr>,
      \<lparr>kernel = [split_on CHR '' '' (port_rule 8080 True)],
       runs = runs (snd (snd example_installed)) @
         [(''-D'' # split_on CHR '' '' (port_rule 8080 True),
           ''iptables: Bad rule (does a matching rule exist in that chain?).'', Some ''exit status 1''),
          (''-D'' # split_on CHR '' ''
             ''OUTPUT -p tcp --tcp-flags RST RST -s 10.0.0.1 --sport 8080 -d 10.0.0.2 --dport 40000 -j DROP'',
           [], None)]\<rparr>)"
proof -
  have i: "do_installs stuck_iptables NewIPTablesManager example_installs fresh_host
      = (fst example_installed, fst (snd example_installed), snd (snd example_installed))"
    by (simp add: example_installed_def)
  have m: "rules (fst (snd example_installed)) = [port_rule 8080 True,
     ''OUTPUT -p tcp --tcp-flags RST RST -s 10.0.0.1 --sport 8080 -d 10.0.0.2 --dport 40000 -j DROP'']"
    by (subst example_installed_value) simp
  have e: "fst example_installed = [None, None]"
    by (subst example_installed_value) simp
  note t = RemoveAllRules_empties [OF i]
  from t have a: "successful_adds (runs (snd (snd example_installed)))
      = map (\<lambda>rule. ''-A'' # split_on CHR '' '' rule) (rules (fst (snd example_installed)))"
    by (simp add: fresh_host_def)
  from t have r: "example_removed =
      (aggregate_error (removal_failures (zip (rules (fst (snd example_installed)))
         (fst (delete_runs stuck_iptables (rules (fst (snd example_installed)))
                (kernel (snd (snd example_installed))))))),
       \<lparr>rules = []\<rparr>,
       \<lparr>kernel = snd (delete_runs stuck_iptables (rules (fst (snd example_installed)))
                (kernel (snd (snd example_installed)))),
        runs = runs (snd (snd example_installed)) @
          fst (delete_runs stuck_iptables (rules (fst (snd example_installed)))
                (kernel (snd (snd example_installed))))\<rparr>)"
    unfolding example_removed_def by (simp add: split_beta)
  have "example_removed =
     (Some (''errors removing rules: failed to remove rule '' @ [CHR 0x27] @ port_rule 8080 True @ [CHR 0x27]
            @ '': exit status 1, output: iptables: Bad rule (does a matching rule exist in that chain?).''),
      \<lparr>rules = []\<rparr>,
      \<lparr>kernel = [split_on CHR '' '' (port_rule 8080 True)],
       runs = runs (snd (snd example_installed)) @
         [(''-D'' # split_on CHR '' '' (port_rule 8080 True),
           ''iptables: Bad rule (does a matching rule exist in that chain?).'', Some ''exit status 1''),
          (''-D'' # split_on CHR '' ''
             ''OUTPUT -p tcp --tcp-flags RST RST -s 10.0.0.1 --sport 8080 -d 10.0.0.2 --dport 40000 -j DROP'',
           [], None)]\<rparr>)"
    unfolding r example_delete_runs unfolding m
    by (simp add: aggregate_error_def)
  with e m a show ?thesis by simp
qed

text \<open>Claim C7. When the rule of \<open>AddRuleForPort\<close> is present after a first call, that is
  \<open>iptables -C\<close> succeeds for it, a second call with the same arguments returns no error,
  leaves the manager as the first call left it, and runs nothing but that check: no
  rule is added.\<close>

theorem AddRuleForPort_idempotent:
  assumes "AddRuleForPort ipt m port isServer h = (e1, m1, h1)"
    and "fst (ruleExists ipt (port_rule port isServer) h1)"
  shows "\<exists>h2 output.
           AddRuleForPort ipt m1 port isServer h1 = (None, m1, h2) \<and>
           runs h2 = runs h1 @ [(''-C'' # split_on CHR '' '' (port_rule port isServer), output, None)]"
proof -
  obtain out err h2 where ex:
    "exec_iptables ipt (''-C'' # split_on CHR '' '' (port_rule port isServer)) h1 = ((out, err), h2)"
    by (metis prod.exhaust)
  with assms(2) have "err = None" by (simp add: ruleExists_def Let_def)
  with ex have "AddRuleForPort ipt m1 port isServer h1 = (None, m1, h2)"
    by (simp add: AddRuleForPort_def ruleExists_def Let_def)
  moreover from ex \<open>err = None\<close>
  have "runs h2 = runs h1 @ [(''-C'' # split_on CHR '' '' (port_rule port isServer), out, None)]"
    using runs_exec_iptables by blast
  ultimately show ?thesis by blast
qed

theorem AddRuleForPort_idempotent_witness:
  "fst port_installed = None \<and>
   (\<exists>h2. AddRuleForPort (table_iptables []) (fst (snd port_installed)) 8080 True (snd (snd port_installed))
          = (None, fst (snd port_installed), h2)) \<and>
   rules (fst (snd port_installed)) = [port_rule 8080 True]"
proof -
  have f: "AddRuleForPort (table_iptables []) NewIPTablesManager 8080 True fresh_host
      = (fst port_installed, fst (snd port_installed), snd (snd port_installed))"
    by (simp add: port_installed_def)
  have p: "fst (ruleExists (table_iptables []) (port_rule 8080 True) (snd (snd port_installed)))"
    using port_installed_value by blast
  from AddRuleForPort_idempotent [OF f p]
  have "\<exists>h2. AddRuleForPort (table_iptables []) (fst (snd port_installed)) 8080 True (snd (snd port_installed))
          = (None, fst (snd port_installed), h2)" by blast
  with port_installed_value show ?thesis by blast
qed

end
